theory Spec2Isabelle
  imports Main
begin


section \<open>Ants vs. SomeBees: the object model of src/ants/ants.py\<close>

text \<open>
  The program is object-oriented Python: Places and Insects are mutable objects that
  refer to each other.  The embedding keeps three stores in one \<open>world\<close> record (the Ant
  instances, the non-Ant Insect instances, the Place instances), indexed by object
  identity, together with the fields of the \<open>AntColony\<close>.  Every method becomes a function
  from the world to the updated world; every exception becomes an \<open>Inl\<close> result.
\<close>

datatype error = AssertionError | AttributeError | ValueError | KeyError | IndexError

text \<open>The subclasses of \<open>Ant\<close>, the two non-Ant classes, and the subclasses of \<open>Place\<close>.\<close>

datatype ant_class =
    Ant | HarvesterAnt | ThrowerAnt | FireAnt | LongThrower | ShortThrower | WallAnt
  | NinjaAnt | ScubaThrower | HungryAnt | BodyguardAnt | QueenAnt | AntRemover
  | SlowThrower | StunThrower

datatype insect_class = Insect | Bee

datatype place_class = Place | Water | Hive

text \<open>
  A reference to an Insect.  \<open>is_ant()\<close> is decided by the class, so the reference carries
  it: \<open>AntRef\<close> for instances of \<open>Ant\<close> and its subclasses, \<open>BeeRef\<close> for the others
  (\<open>Bee\<close>, and the bare \<open>Insect\<close> of the doctest).
\<close>

datatype insect = AntRef nat | BeeRef nat

text \<open>
  \<open>apply_effect(effect, bee, duration)\<close> is only ever called with \<open>make_slow\<close> or
  \<open>make_stun\<close>; the closure \<open>make_duration_effect\<close> it registers captures that function,
  the duration, and the mutable cell \<open>count\<close>.
\<close>

datatype effect = MakeSlow | MakeStun

record closure =
  c_effect :: effect
  c_duration :: int
  c_count :: int

record ant_obj =
  a_class :: ant_class
  a_armor :: int
  a_place :: "nat option"
  a_damage :: int
  a_damage_doubled :: bool
  a_ant :: "nat option"
  a_is_true_queen :: bool
  a_digesting :: int

record bee_obj =
  b_class :: insect_class
  b_armor :: int
  b_place :: "nat option"
  b_effects :: "closure list"

record place_obj =
  p_class :: place_class
  p_name :: string
  p_exit :: "nat option"
  p_entrance :: "nat option"
  p_bees :: "nat list"
  p_ant :: "nat option"

text \<open>\<open>colony.queen\<close> is a \<open>Place\<close> until the true queen acts, a \<open>QueenPlace\<close> afterwards.\<close>

datatype queen_ref = PlaceRef nat | QueenPlace nat nat

text \<open>What the program prints.\<close>

datatype message =
    Expired insect
  | Added insect bool
  | NotEnoughFood string
  | Perished
  | YouWin

record world =
  ant_of :: "nat \<Rightarrow> ant_obj"
  bee_of :: "nat \<Rightarrow> bee_obj"
  place_of :: "nat \<Rightarrow> place_obj"
  next_ant :: nat
  queen_flag :: bool
  time :: int
  food :: int
  queen :: queen_ref
  hive :: nat
  places :: "(string \<times> nat) list"
  ant_types :: "(string \<times> ant_class) list"
  assault_plan :: "int \<Rightarrow> nat list"
  rng :: "nat list"
  stdout :: "message list"

text \<open>
  \<open>next_ant\<close> is the identity the next constructed Ant receives; \<open>queen_flag\<close> is the class
  attribute \<open>QueenAnt.is_true_queen\<close>; \<open>rng\<close> is the sequence of results the random
  source will give; \<open>assault_plan t\<close> is \<open>assault_plan.get(t, [])\<close>.
\<close>

subsection \<open>Class attributes\<close>

fun watersafe_class :: "ant_class \<Rightarrow> bool" where
  "watersafe_class ScubaThrower = True"
| "watersafe_class QueenAnt = True"
| "watersafe_class _ = False"

fun damage_class :: "ant_class \<Rightarrow> int" where
  "damage_class ThrowerAnt = 1"
| "damage_class LongThrower = 1"
| "damage_class ShortThrower = 1"
| "damage_class ScubaThrower = 1"
| "damage_class QueenAnt = 1"
| "damage_class SlowThrower = 1"
| "damage_class StunThrower = 1"
| "damage_class FireAnt = 3"
| "damage_class NinjaAnt = 1"
| "damage_class _ = 0"

fun food_cost :: "ant_class \<Rightarrow> int" where
  "food_cost Ant = 0"
| "food_cost HarvesterAnt = 2"
| "food_cost ThrowerAnt = 4"
| "food_cost FireAnt = 4"
| "food_cost LongThrower = 3"
| "food_cost ShortThrower = 3"
| "food_cost WallAnt = 4"
| "food_cost NinjaAnt = 6"
| "food_cost ScubaThrower = 5"
| "food_cost HungryAnt = 4"
| "food_cost BodyguardAnt = 4"
| "food_cost QueenAnt = 6"
| "food_cost AntRemover = 0"
| "food_cost SlowThrower = 4"
| "food_cost StunThrower = 6"

fun blocks_path :: "ant_class \<Rightarrow> bool" where
  "blocks_path NinjaAnt = False"
| "blocks_path _ = True"

fun container :: "ant_class \<Rightarrow> bool" where
  "container BodyguardAnt = True"
| "container _ = False"

fun min_range :: "ant_class \<Rightarrow> nat" where
  "min_range LongThrower = 4"
| "min_range _ = 0"

fun max_range :: "ant_class \<Rightarrow> nat" where
  "max_range ShortThrower = 2"
| "max_range _ = 10"

text \<open>The armor each constructor passes to \<open>Ant.__init__\<close>.\<close>

fun initial_armor :: "ant_class \<Rightarrow> int" where
  "initial_armor WallAnt = 4"
| "initial_armor BodyguardAnt = 2"
| "initial_armor AntRemover = 0"
| "initial_armor _ = 1"

subsection \<open>Field access through a reference\<close>

definition upd_ant :: "nat \<Rightarrow> (ant_obj \<Rightarrow> ant_obj) \<Rightarrow> world \<Rightarrow> world" where
  "upd_ant a f s = s\<lparr>ant_of := (ant_of s)(a := f (ant_of s a))\<rparr>"

definition upd_bee :: "nat \<Rightarrow> (bee_obj \<Rightarrow> bee_obj) \<Rightarrow> world \<Rightarrow> world" where
  "upd_bee b f s = s\<lparr>bee_of := (bee_of s)(b := f (bee_of s b))\<rparr>"

definition upd_place :: "nat \<Rightarrow> (place_obj \<Rightarrow> place_obj) \<Rightarrow> world \<Rightarrow> world" where
  "upd_place p f s = s\<lparr>place_of := (place_of s)(p := f (place_of s p))\<rparr>"

fun is_ant :: "insect \<Rightarrow> bool" where
  "is_ant (AntRef a) = True"
| "is_ant (BeeRef b) = False"

fun armor :: "world \<Rightarrow> insect \<Rightarrow> int" where
  "armor s (AntRef a) = a_armor (ant_of s a)"
| "armor s (BeeRef b) = b_armor (bee_of s b)"

fun place :: "world \<Rightarrow> insect \<Rightarrow> nat option" where
  "place s (AntRef a) = a_place (ant_of s a)"
| "place s (BeeRef b) = b_place (bee_of s b)"

fun set_armor :: "insect \<Rightarrow> int \<Rightarrow> world \<Rightarrow> world" where
  "set_armor (AntRef a) k s = upd_ant a (\<lambda>x. x\<lparr>a_armor := k\<rparr>) s"
| "set_armor (BeeRef b) k s = upd_bee b (\<lambda>x. x\<lparr>b_armor := k\<rparr>) s"

fun set_place :: "insect \<Rightarrow> nat option \<Rightarrow> world \<Rightarrow> world" where
  "set_place (AntRef a) p s = upd_ant a (\<lambda>x. x\<lparr>a_place := p\<rparr>) s"
| "set_place (BeeRef b) p s = upd_bee b (\<lambda>x. x\<lparr>b_place := p\<rparr>) s"

fun watersafe :: "world \<Rightarrow> insect \<Rightarrow> bool" where
  "watersafe s (AntRef a) = watersafe_class (a_class (ant_of s a))"
| "watersafe s (BeeRef b) = (b_class (bee_of s b) = Bee)"

text \<open>\<open>Insect.is_queen\<close> returns False; \<open>QueenAnt.is_queen\<close> returns \<open>self.is_true_queen\<close>.\<close>

fun is_queen :: "world \<Rightarrow> insect \<Rightarrow> bool" where
  "is_queen s (AntRef a) =
     (a_class (ant_of s a) = QueenAnt \<and> a_is_true_queen (ant_of s a))"
| "is_queen s (BeeRef b) = False"

text \<open>\<open>Ant.contained_ant\<close> returns None; \<open>BodyguardAnt.contained_ant\<close> returns \<open>self.ant\<close>.\<close>

definition contained_ant :: "world \<Rightarrow> nat \<Rightarrow> nat option" where
  "contained_ant s a =
     (if a_class (ant_of s a) = BodyguardAnt then a_ant (ant_of s a) else None)"

definition can_contain :: "world \<Rightarrow> nat \<Rightarrow> nat \<Rightarrow> bool" where
  "can_contain s self other =
     (if \<not> container (a_class (ant_of s self)) then False
      else if contained_ant s self \<noteq> None then False
      else if container (a_class (ant_of s other)) then False
      else True)"

text \<open>Only \<open>BodyguardAnt\<close> defines \<open>contain_ant\<close>.\<close>

definition contain_ant :: "world \<Rightarrow> nat \<Rightarrow> nat \<Rightarrow> error + world" where
  "contain_ant s self ant =
     (if a_class (ant_of s self) = BodyguardAnt
      then Inr (upd_ant self (\<lambda>x. x\<lparr>a_ant := Some ant\<rparr>) s)
      else Inl AttributeError)"

definition print :: "message \<Rightarrow> world \<Rightarrow> world" where
  "print msg s = s\<lparr>stdout := stdout s @ [msg]\<rparr>"

subsection \<open>Place.add_insect and Place.remove_insect\<close>

definition Place_add_insect :: "world \<Rightarrow> nat \<Rightarrow> insect \<Rightarrow> error + world" where
  "Place_add_insect s self i =
     (case i of
        AntRef a \<Rightarrow>
          (case p_ant (place_of s self) of
             None \<Rightarrow>
               Inr (set_place i (Some self) (upd_place self (\<lambda>x. x\<lparr>p_ant := Some a\<rparr>) s))
           | Some c \<Rightarrow>
               if can_contain s c a then
                 (case contain_ant s c a of
                    Inl e \<Rightarrow> Inl e
                  | Inr s1 \<Rightarrow> Inr (set_place i (Some self) s1))
               else if can_contain s a c then
                 (case contain_ant s a c of
                    Inl e \<Rightarrow> Inl e
                  | Inr s1 \<Rightarrow>
                      Inr (set_place i (Some self)
                             (upd_place self (\<lambda>x. x\<lparr>p_ant := Some a\<rparr>) s1)))
               else Inl AssertionError)
      | BeeRef b \<Rightarrow>
          Inr (set_place i (Some self)
                 (upd_place self (\<lambda>x. x\<lparr>p_bees := p_bees x @ [b]\<rparr>) s)))"

text \<open>
  \<open>list.remove\<close> deletes the first occurrence and raises ValueError when there is none;
  the assertion compares \<open>self.ant\<close> (possibly None) with the insect.
\<close>

definition Place_remove_insect :: "world \<Rightarrow> nat \<Rightarrow> insect \<Rightarrow> error + world" where
  "Place_remove_insect s self i =
     (if is_queen s i then Inr s
      else case i of
        BeeRef b \<Rightarrow>
          if b \<in> set (p_bees (place_of s self))
          then Inr (set_place i None
                      (upd_place self (\<lambda>x. x\<lparr>p_bees := remove1 b (p_bees x)\<rparr>) s))
          else Inl ValueError
      | AntRef a \<Rightarrow>
          if p_ant (place_of s self) = Some a
          then Inr (set_place i None
                      (upd_place self (\<lambda>x. x\<lparr>p_ant := contained_ant s a\<rparr>) s))
          else Inl AssertionError)"

subsection \<open>Insect.reduce_armor and FireAnt.reduce_armor\<close>

definition Insect_reduce_armor :: "world \<Rightarrow> insect \<Rightarrow> int \<Rightarrow> error + world" where
  "Insect_reduce_armor s self amount =
     (let s1 = set_armor self (armor s self - amount) s in
      if armor s1 self \<le> 0 then
        (case place s1 self of
           None \<Rightarrow> Inl AttributeError
         | Some p \<Rightarrow> Place_remove_insect (print (Expired self) s1) p self)
      else Inr s1)"

text \<open>
  The loop \<open>for bee in self.place.bees[:]: bee.reduce_armor(damage)\<close> of \<open>FireAnt\<close> and
  \<open>NinjaAnt\<close>, over the copy of the list taken before the loop.  The members of a
  \<open>bees\<close> list are never Ants, so the call is \<open>Insect.reduce_armor\<close>.
\<close>

fun reduce_each :: "world \<Rightarrow> nat list \<Rightarrow> int \<Rightarrow> error + world" where
  "reduce_each s [] d = Inr s"
| "reduce_each s (b # bs) d =
     (case Insect_reduce_armor s (BeeRef b) d of
        Inl e \<Rightarrow> Inl e
      | Inr s1 \<Rightarrow> reduce_each s1 bs d)"

definition FireAnt_reduce_armor :: "world \<Rightarrow> nat \<Rightarrow> int \<Rightarrow> error + world" where
  "FireAnt_reduce_armor s self amount =
     (if a_armor (ant_of s self) \<le> amount then
        (case a_place (ant_of s self) of
           None \<Rightarrow> Inl AttributeError
         | Some p \<Rightarrow>
             (case reduce_each s (p_bees (place_of s p)) (a_damage (ant_of s self)) of
                Inl e \<Rightarrow> Inl e
              | Inr s1 \<Rightarrow> Insect_reduce_armor s1 (AntRef self) amount))
      else Insect_reduce_armor s (AntRef self) amount)"

text \<open>Dynamic dispatch of \<open>insect.reduce_armor(amount)\<close>.\<close>

definition reduce_armor :: "world \<Rightarrow> insect \<Rightarrow> int \<Rightarrow> error + world" where
  "reduce_armor s self amount =
     (case self of
        AntRef a \<Rightarrow>
          if a_class (ant_of s a) = FireAnt then FireAnt_reduce_armor s a amount
          else Insect_reduce_armor s self amount
      | BeeRef b \<Rightarrow> Insect_reduce_armor s self amount)"

subsection \<open>Water.add_insect\<close>

definition Water_add_insect :: "world \<Rightarrow> nat \<Rightarrow> insect \<Rightarrow> error + world" where
  "Water_add_insect s self i =
     (case Place_add_insect (print (Added i (watersafe s i)) s) self i of
        Inl e \<Rightarrow> Inl e
      | Inr s1 \<Rightarrow>
          if \<not> watersafe s1 i then reduce_armor s1 i (armor s1 i) else Inr s1)"

text \<open>Dynamic dispatch of \<open>place.add_insect(insect)\<close>; \<open>Hive\<close> inherits \<open>Place\<close>'s method.\<close>

definition add_insect :: "world \<Rightarrow> nat \<Rightarrow> insect \<Rightarrow> error + world" where
  "add_insect s self i =
     (if p_class (place_of s self) = Water then Water_add_insect s self i
      else Place_add_insect s self i)"

subsection \<open>Bee: blocked, sting, move_to, _action\<close>

definition Bee_move_to :: "world \<Rightarrow> nat \<Rightarrow> nat option \<Rightarrow> error + world" where
  "Bee_move_to s self target =
     (case b_place (bee_of s self) of
        None \<Rightarrow> Inl AttributeError
      | Some p \<Rightarrow>
          (case Place_remove_insect s p (BeeRef self) of
             Inl e \<Rightarrow> Inl e
           | Inr s1 \<Rightarrow>
               (case target of
                  None \<Rightarrow> Inl AttributeError
                | Some q \<Rightarrow> add_insect s1 q (BeeRef self))))"

definition Bee_blocked :: "world \<Rightarrow> nat \<Rightarrow> error + bool" where
  "Bee_blocked s self =
     (case b_place (bee_of s self) of
        None \<Rightarrow> Inl AttributeError
      | Some p \<Rightarrow>
          (case p_ant (place_of s p) of
             None \<Rightarrow> Inr False
           | Some a \<Rightarrow> Inr (blocks_path (a_class (ant_of s a)))))"

definition Bee_sting :: "world \<Rightarrow> nat option \<Rightarrow> error + world" where
  "Bee_sting s ant =
     (case ant of None \<Rightarrow> Inl AttributeError | Some a \<Rightarrow> reduce_armor s (AntRef a) 1)"

definition Bee__action :: "world \<Rightarrow> nat \<Rightarrow> error + world" where
  "Bee__action s self =
     (case Bee_blocked s self of
        Inl e \<Rightarrow> Inl e
      | Inr blocked \<Rightarrow>
          (case b_place (bee_of s self) of
             None \<Rightarrow> Inl AttributeError
           | Some p \<Rightarrow>
               if blocked then Bee_sting s (p_ant (place_of s p))
               else if p_name (place_of s p) \<noteq> ''Hive'' \<and> b_armor (bee_of s self) > 0
               then Bee_move_to s self (p_exit (place_of s p))
               else Inr s))"

subsection \<open>Status effects\<close>

type_synonym action = "world \<Rightarrow> nat \<Rightarrow> error + world"

definition make_slow :: "action \<Rightarrow> action" where
  "make_slow action = (\<lambda>colony self. if time colony mod 2 = 0 then action colony self else Inr colony)"

definition make_stun :: "action \<Rightarrow> action" where
  "make_stun action = (\<lambda>colony self. Inr colony)"

fun effect_fn :: "effect \<Rightarrow> action \<Rightarrow> action" where
  "effect_fn MakeSlow = make_slow"
| "effect_fn MakeStun = make_stun"

text \<open>
  \<open>apply_effect\<close> appends the closure \<open>make_duration_effect\<close>, with its own \<open>count = 0\<close>, to
  \<open>bee.effects\<close>.  Only \<open>Bee\<close> has the method \<open>apply_effect\<close>.
\<close>

definition apply_effect :: "effect \<Rightarrow> nat \<Rightarrow> int \<Rightarrow> world \<Rightarrow> error + world" where
  "apply_effect effect bee duration s =
     (if b_class (bee_of s bee) = Bee
      then Inr (upd_bee bee (\<lambda>x. x\<lparr>b_effects := b_effects x @
                  [\<lparr>c_effect = effect, c_duration = duration, c_count = 0\<rparr>]\<rparr>) s)
      else Inl AttributeError)"

text \<open>\<open>count += 1\<close> on the cell of the \<open>j\<close>-th closure registered on \<open>bee\<close>.\<close>

definition bump_count :: "nat \<Rightarrow> nat \<Rightarrow> world \<Rightarrow> world" where
  "bump_count bee j s =
     upd_bee bee (\<lambda>x. x\<lparr>b_effects := (b_effects x)
        [j := (b_effects x ! j)\<lparr>c_count := c_count (b_effects x ! j) + 1\<rparr>]\<rparr>) s"

text \<open>
  \<open>duration_effect\<close>, the function that the \<open>j\<close>-th closure of \<open>bee\<close> returns when it is
  given \<open>action\<close>: the count is incremented before the affected action is called.
\<close>

definition duration_effect :: "nat \<Rightarrow> nat \<Rightarrow> action \<Rightarrow> action" where
  "duration_effect bee j action = (\<lambda>colony self.
     let c = b_effects (bee_of colony bee) ! j in
     if c_count c < c_duration c
     then effect_fn (c_effect c) action (bump_count bee j colony) self
     else action colony self)"

text \<open>
  \<open>Bee.action\<close>: starting from \<open>Bee._action\<close>, every registered closure wraps the action
  built so far, in registration order, so the closure registered last is outermost.
  \<open>action_fn self n\<close> is the variable \<open>action_fn\<close> after \<open>n\<close> iterations of the loop.
\<close>

definition action_fn :: "nat \<Rightarrow> nat \<Rightarrow> action" where
  "action_fn self n = fold (\<lambda>j action. duration_effect self j action) [0 ..< n] Bee__action"

definition Bee_action :: "world \<Rightarrow> nat \<Rightarrow> error + world" where
  "Bee_action s self = action_fn self (length (b_effects (bee_of s self))) s self"

subsection \<open>ThrowerAnt and its subclasses\<close>

text \<open>\<open>random.choice\<close> raises IndexError on an empty sequence.\<close>

definition random_choice :: "nat list \<Rightarrow> world \<Rightarrow> error + (nat \<times> world)" where
  "random_choice l s =
     (if l = [] then Inl IndexError
      else case rng s of
             [] \<Rightarrow> Inr (l ! 0, s)
           | r # rs \<Rightarrow> Inr (l ! (r mod length l), s\<lparr>rng := rs\<rparr>))"

definition random_or_none :: "nat list \<Rightarrow> world \<Rightarrow> nat option \<times> world" where
  "random_or_none l s =
     (case random_choice l s of Inl e \<Rightarrow> (None, s) | Inr (x, s1) \<Rightarrow> (Some x, s1))"

text \<open>
  The loop of \<open>nearest_bee\<close>.  It ends when \<open>place is hive\<close> or when a target is found;
  \<open>None\<close> (of the outer option) means that the loop has not ended after the given number
  of iterations; \<open>hops\<close> is the variable \<open>range\<close>.  Reading \<open>place.bees\<close> or
  \<open>place.entrance\<close> when \<open>place\<close> is None raises.
\<close>

fun nearest_bee_loop ::
  "nat \<Rightarrow> world \<Rightarrow> nat \<Rightarrow> nat \<Rightarrow> nat option \<Rightarrow> nat \<Rightarrow> (error + (nat option \<times> world)) option" where
  "nearest_bee_loop 0 s self hv pl hops = None"
| "nearest_bee_loop (Suc n) s self hv pl hops =
     (if pl = Some hv then Some (Inr (None, s))
      else case pl of
        None \<Rightarrow> Some (Inl AttributeError)
      | Some p \<Rightarrow>
          if min_range (a_class (ant_of s self)) \<le> hops
             \<and> hops \<le> max_range (a_class (ant_of s self))
          then (case random_or_none (p_bees (place_of s p)) s of
                  (Some target, s1) \<Rightarrow> Some (Inr (Some target, s1))
                | (None, s1) \<Rightarrow>
                    nearest_bee_loop n s1 self hv (p_entrance (place_of s1 p)) (hops + 1))
          else nearest_bee_loop n s self hv (p_entrance (place_of s p)) (hops + 1))"

definition nearest_bee ::
  "nat \<Rightarrow> world \<Rightarrow> nat \<Rightarrow> nat \<Rightarrow> (error + (nat option \<times> world)) option" where
  "nearest_bee n s self hv = nearest_bee_loop n s self hv (a_place (ant_of s self)) 0"

definition ThrowerAnt_throw_at :: "world \<Rightarrow> nat \<Rightarrow> nat option \<Rightarrow> error + world" where
  "ThrowerAnt_throw_at s self target =
     (case target of
        None \<Rightarrow> Inr s
      | Some t \<Rightarrow> reduce_armor s (BeeRef t) (a_damage (ant_of s self)))"

definition SlowThrower_throw_at :: "world \<Rightarrow> nat \<Rightarrow> nat option \<Rightarrow> error + world" where
  "SlowThrower_throw_at s self target =
     (case target of None \<Rightarrow> Inr s | Some t \<Rightarrow> apply_effect MakeSlow t 3 s)"

definition StunThrower_throw_at :: "world \<Rightarrow> nat \<Rightarrow> nat option \<Rightarrow> error + world" where
  "StunThrower_throw_at s self target =
     (case target of None \<Rightarrow> Inr s | Some t \<Rightarrow> apply_effect MakeStun t 1 s)"

definition throw_at :: "world \<Rightarrow> nat \<Rightarrow> nat option \<Rightarrow> error + world" where
  "throw_at s self target =
     (if a_class (ant_of s self) = SlowThrower then SlowThrower_throw_at s self target
      else if a_class (ant_of s self) = StunThrower then StunThrower_throw_at s self target
      else ThrowerAnt_throw_at s self target)"

definition ThrowerAnt_action :: "nat \<Rightarrow> world \<Rightarrow> nat \<Rightarrow> (error + world) option" where
  "ThrowerAnt_action n s self =
     (case nearest_bee n s self (hive s) of
        None \<Rightarrow> None
      | Some (Inl e) \<Rightarrow> Some (Inl e)
      | Some (Inr (target, s1)) \<Rightarrow> Some (throw_at s1 self target))"

subsection \<open>The other Ant subclasses\<close>

definition HungryAnt_eat_bee :: "world \<Rightarrow> nat \<Rightarrow> nat \<Rightarrow> error + world" where
  "HungryAnt_eat_bee s self bee =
     (case reduce_armor s (BeeRef bee) (b_armor (bee_of s bee)) of
        Inl e \<Rightarrow> Inl e
      | Inr s1 \<Rightarrow> Inr (upd_ant self (\<lambda>x. x\<lparr>a_digesting := 3\<rparr>) s1))"

definition HungryAnt_action :: "world \<Rightarrow> nat \<Rightarrow> error + world" where
  "HungryAnt_action s self =
     (if a_digesting (ant_of s self) > 0
      then Inr (upd_ant self (\<lambda>x. x\<lparr>a_digesting := a_digesting x - 1\<rparr>) s)
      else case a_place (ant_of s self) of
        None \<Rightarrow> Inl AttributeError
      | Some p \<Rightarrow>
          (case random_or_none (p_bees (place_of s p)) s of
             (None, s1) \<Rightarrow> Inr s1
           | (Some bee, s1) \<Rightarrow> HungryAnt_eat_bee s1 self bee))"

definition NinjaAnt_action :: "world \<Rightarrow> nat \<Rightarrow> error + world" where
  "NinjaAnt_action s self =
     (case a_place (ant_of s self) of
        None \<Rightarrow> Inl AttributeError
      | Some p \<Rightarrow> reduce_each s (p_bees (place_of s p)) (a_damage (ant_of s self)))"

definition HarvesterAnt_action :: "world \<Rightarrow> nat \<Rightarrow> world" where
  "HarvesterAnt_action colony self = colony\<lparr>food := food colony + 1\<rparr>"

subsection \<open>QueenAnt\<close>

definition double_damage :: "world \<Rightarrow> nat \<Rightarrow> world" where
  "double_damage s self =
     (if a_damage_doubled (ant_of s self) then s
      else upd_ant self (\<lambda>x. x\<lparr>a_damage := a_damage x * 2, a_damage_doubled := True\<rparr>) s)"

definition double_place_damage :: "world \<Rightarrow> nat \<Rightarrow> world" where
  "double_place_damage s pl =
     (case p_ant (place_of s pl) of
        None \<Rightarrow> s
      | Some ant \<Rightarrow>
          if is_queen s (AntRef ant) then s
          else
            (let s1 = double_damage s ant in
             case contained_ant s1 ant of
               None \<Rightarrow> s1
             | Some c \<Rightarrow> if is_queen s1 (AntRef c) then s1 else double_damage s1 c))"

text \<open>
  The two loops of \<open>QueenAnt.action\<close>, \<open>while place is not None\<close>: one follows
  \<open>place.exit\<close>, the other \<open>place.entrance\<close>; \<open>field\<close> selects it.  \<open>None\<close> means that
  the loop has not ended after the given number of iterations.
\<close>

fun double_loop ::
  "nat \<Rightarrow> (place_obj \<Rightarrow> nat option) \<Rightarrow> world \<Rightarrow> nat option \<Rightarrow> world option" where
  "double_loop 0 field s pl = None"
| "double_loop (Suc n) field s pl =
     (case pl of
        None \<Rightarrow> Some s
      | Some p \<Rightarrow>
          (let s1 = double_place_damage s p in double_loop n field s1 (field (place_of s1 p))))"

text \<open>
  \<open>QueenAnt.action\<close>.  An impostor only reduces its own armor to zero.
  \<open>colony.queen.is_queen_place()\<close> is False for a \<open>Place\<close> and True for a \<open>QueenPlace\<close>.
  When the true queen has no place, \<open>nearest_bee\<close> raises at once (None is not the
  hive), so that case is an AttributeError.
\<close>

definition QueenAnt_action :: "nat \<Rightarrow> world \<Rightarrow> nat \<Rightarrow> (error + world) option" where
  "QueenAnt_action n colony self =
     (if \<not> a_is_true_queen (ant_of colony self)
      then Some (reduce_armor colony (AntRef self) (a_armor (ant_of colony self)))
      else case a_place (ant_of colony self) of
        None \<Rightarrow> Some (Inl AttributeError)
      | Some own \<Rightarrow>
          (let c1 = (case queen colony of
                       PlaceRef q \<Rightarrow> colony\<lparr>queen := QueenPlace q own\<rparr>
                     | QueenPlace c a \<Rightarrow> colony)
           in case ThrowerAnt_action n c1 self of
                None \<Rightarrow> None
              | Some (Inl e) \<Rightarrow> Some (Inl e)
              | Some (Inr c2) \<Rightarrow>
                  (case double_loop n p_exit c2 (a_place (ant_of c2 self)) of
                     None \<Rightarrow> None
                   | Some c3 \<Rightarrow>
                       (case a_place (ant_of c3 self) of
                          None \<Rightarrow> Some (Inl AttributeError)
                        | Some p \<Rightarrow>
                            (case double_loop n p_entrance c3 (p_entrance (place_of c3 p)) of
                               None \<Rightarrow> None
                             | Some c4 \<Rightarrow> Some (Inr c4))))))"

text \<open>
  Dynamic dispatch of \<open>ant.action(colony)\<close>.  \<open>BodyguardAnt.action\<close> calls the action of
  the ant it contains; \<open>None\<close> means that the call has not returned within the given
  depth.  \<open>Ant\<close>, \<open>FireAnt\<close>, \<open>WallAnt\<close> and \<open>AntRemover\<close> inherit the empty
  \<open>Insect.action\<close>.
\<close>

fun ant_action :: "nat \<Rightarrow> world \<Rightarrow> nat \<Rightarrow> (error + world) option" where
  "ant_action 0 colony self = None"
| "ant_action (Suc n) colony self =
     (case a_class (ant_of colony self) of
        HarvesterAnt \<Rightarrow> Some (Inr (HarvesterAnt_action colony self))
      | ThrowerAnt \<Rightarrow> ThrowerAnt_action n colony self
      | LongThrower \<Rightarrow> ThrowerAnt_action n colony self
      | ShortThrower \<Rightarrow> ThrowerAnt_action n colony self
      | ScubaThrower \<Rightarrow> ThrowerAnt_action n colony self
      | SlowThrower \<Rightarrow> ThrowerAnt_action n colony self
      | StunThrower \<Rightarrow> ThrowerAnt_action n colony self
      | NinjaAnt \<Rightarrow> Some (NinjaAnt_action colony self)
      | HungryAnt \<Rightarrow> Some (HungryAnt_action colony self)
      | BodyguardAnt \<Rightarrow>
          (case a_ant (ant_of colony self) of
             None \<Rightarrow> Some (Inr colony)
           | Some c \<Rightarrow> ant_action n colony c)
      | QueenAnt \<Rightarrow> QueenAnt_action n colony self
      | _ \<Rightarrow> Some (Inr colony))"

text \<open>Dynamic dispatch of \<open>bee.action(colony)\<close>: the bare \<open>Insect.action\<close> does nothing.\<close>

definition insect_action :: "world \<Rightarrow> nat \<Rightarrow> error + world" where
  "insect_action colony self =
     (if b_class (bee_of colony self) = Bee then Bee_action colony self else Inr colony)"

subsection \<open>AntColony\<close>

text \<open>The properties \<open>ants\<close> and \<open>bees\<close>, and \<open>self.queen.bees\<close>.\<close>

definition colony_ants :: "world \<Rightarrow> nat list" where
  "colony_ants s = List.map_filter (\<lambda>(name, p). p_ant (place_of s p)) (places s)"

definition colony_bees :: "world \<Rightarrow> nat list" where
  "colony_bees s = concat (map (\<lambda>(name, p). p_bees (place_of s p)) (places s))"

fun queen_bees :: "world \<Rightarrow> queen_ref \<Rightarrow> nat list" where
  "queen_bees s (PlaceRef q) = p_bees (place_of s q)"
| "queen_bees s (QueenPlace c a) = remdups (p_bees (place_of s c) @ p_bees (place_of s a))"

text \<open>A constructor call \<open>constructor()\<close> for an Ant class: the new object and the new world.\<close>

definition construct :: "ant_class \<Rightarrow> world \<Rightarrow> nat \<times> world" where
  "construct cls s =
     (next_ant s,
      s\<lparr>ant_of := (ant_of s)(next_ant s :=
           \<lparr>a_class = cls, a_armor = initial_armor cls, a_place = None,
            a_damage = damage_class cls, a_damage_doubled = False, a_ant = None,
            a_is_true_queen = (cls = QueenAnt \<and> queen_flag s), a_digesting = 0\<rparr>),
        next_ant := Suc (next_ant s),
        queen_flag := (if cls = QueenAnt then False else queen_flag s)\<rparr>)"

definition deploy_ant :: "world \<Rightarrow> string \<Rightarrow> string \<Rightarrow> error + world" where
  "deploy_ant s place_name ant_type_name =
     (case map_of (ant_types s) ant_type_name of
        None \<Rightarrow> Inl KeyError
      | Some constructor \<Rightarrow>
          if food s < food_cost constructor
          then Inr (print (NotEnoughFood ant_type_name) s)
          else
            (case map_of (places s) place_name of
               None \<Rightarrow> Inl KeyError
             | Some p \<Rightarrow>
                 (case construct constructor s of
                    (a, s1) \<Rightarrow>
                      (case add_insect s1 p (AntRef a) of
                         Inl e \<Rightarrow> Inl e
                       | Inr s2 \<Rightarrow> Inr (s2\<lparr>food := food s2 - food_cost constructor\<rparr>)))))"

definition remove_ant :: "world \<Rightarrow> string \<Rightarrow> error + world" where
  "remove_ant s place_name =
     (case map_of (places s) place_name of
        None \<Rightarrow> Inl KeyError
      | Some p \<Rightarrow>
          (case p_ant (place_of s p) of
             None \<Rightarrow> Inr s
           | Some a \<Rightarrow> Place_remove_insect s p (AntRef a)))"

text \<open>\<open>Hive.strategy\<close>: every bee of the wave planned for the current time moves to a
  random exit of the hive.\<close>

fun move_wave :: "world \<Rightarrow> nat list \<Rightarrow> nat list \<Rightarrow> error + world" where
  "move_wave s exits [] = Inr s"
| "move_wave s exits (bee # wave) =
     (case random_choice exits s of
        Inl e \<Rightarrow> Inl e
      | Inr (x, s1) \<Rightarrow>
          (case Bee_move_to s1 bee (Some x) of
             Inl e \<Rightarrow> Inl e
           | Inr s2 \<Rightarrow> move_wave s2 exits wave))"

definition Hive_strategy :: "world \<Rightarrow> error + world" where
  "Hive_strategy colony =
     (let exits = map snd (filter (\<lambda>(name, p). p_entrance (place_of colony p) = Some (hive colony))
                                  (places colony))
      in move_wave colony exits (assault_plan colony (time colony)))"

text \<open>The two inner loops of \<open>simulate\<close>, each over the list computed before the loop.\<close>

fun ants_take_actions :: "nat \<Rightarrow> world \<Rightarrow> nat list \<Rightarrow> (error + world) option" where
  "ants_take_actions n s [] = Some (Inr s)"
| "ants_take_actions n s (ant # rest) =
     (if a_armor (ant_of s ant) > 0
      then (case ant_action n s ant of
              None \<Rightarrow> None
            | Some (Inl e) \<Rightarrow> Some (Inl e)
            | Some (Inr s1) \<Rightarrow> ants_take_actions n s1 rest)
      else ants_take_actions n s rest)"

fun bees_take_actions :: "world \<Rightarrow> nat list \<Rightarrow> error + world" where
  "bees_take_actions s [] = Inr s"
| "bees_take_actions s (bee # rest) =
     (if b_armor (bee_of s bee) > 0
      then (case insect_action s bee of
              Inl e \<Rightarrow> Inl e
            | Inr s1 \<Rightarrow> bees_take_actions s1 rest)
      else bees_take_actions s rest)"

text \<open>One iteration of the loop of \<open>simulate\<close>; \<open>strategy\<close> is the colony's strategy.\<close>

definition turn :: "nat \<Rightarrow> (world \<Rightarrow> error + world) \<Rightarrow> world \<Rightarrow> (error + world) option" where
  "turn n strategy s =
     (case Hive_strategy s of
        Inl e \<Rightarrow> Some (Inl e)
      | Inr s1 \<Rightarrow>
          (case strategy s1 of
             Inl e \<Rightarrow> Some (Inl e)
           | Inr s2 \<Rightarrow>
               (case ants_take_actions n s2 (colony_ants s2) of
                  None \<Rightarrow> None
                | Some (Inl e) \<Rightarrow> Some (Inl e)
                | Some (Inr s3) \<Rightarrow>
                    (case bees_take_actions s3 (colony_bees s3) of
                       Inl e \<Rightarrow> Some (Inl e)
                     | Inr s4 \<Rightarrow> Some (Inr (s4\<lparr>time := time s4 + 1\<rparr>))))))"

text \<open>
  \<open>simulate\<close>: the loop condition is checked before each iteration; \<open>None\<close> means that
  the loop has not ended after the given number of iterations.
\<close>

fun simulate :: "nat \<Rightarrow> (world \<Rightarrow> error + world) \<Rightarrow> world \<Rightarrow> (error + world) option" where
  "simulate 0 strategy s = None"
| "simulate (Suc n) strategy s =
     (if length (queen_bees s (queen s)) = 0 \<and> length (colony_bees s) > 0
      then (case turn n strategy s of
              None \<Rightarrow> None
            | Some (Inl e) \<Rightarrow> Some (Inl e)
            | Some (Inr s1) \<Rightarrow> simulate n strategy s1)
      else if length (queen_bees s (queen s)) > 0
      then Some (Inr (print Perished s))
      else Some (Inr (print YouWin s)))"

section \<open>The properties\<close>

subsection \<open>The occupancy of a Place\<close>

definition slot_ok :: "world \<Rightarrow> nat \<Rightarrow> bool" where
  "slot_ok s p =
     (case p_ant (place_of s p) of
        None \<Rightarrow> True
      | Some a \<Rightarrow>
          if container (a_class (ant_of s a))
          then (case contained_ant s a of
                  None \<Rightarrow> True
                | Some c \<Rightarrow> \<not> container (a_class (ant_of s c)) \<and> contained_ant s c = None)
          else contained_ant s a = None)"

definition nested_inv :: "world \<Rightarrow> bool" where
  "nested_inv s =
     ((\<forall>a c. a_ant (ant_of s a) = Some c \<longrightarrow>
             c < next_ant s \<and> \<not> container (a_class (ant_of s c))) \<and>
      (\<forall>p a. p_ant (place_of s p) = Some a \<longrightarrow> a < next_ant s))"

definition allocated :: "world \<Rightarrow> insect \<Rightarrow> bool" where
  "allocated s i = (case i of AntRef a \<Rightarrow> a < next_ant s | BeeRef b \<Rightarrow> True)"

definition same_shape :: "world \<Rightarrow> world \<Rightarrow> bool" where
  "same_shape s s' =
     (next_ant s' = next_ant s \<and>
      (\<forall>a. a_class (ant_of s' a) = a_class (ant_of s a) \<and> a_ant (ant_of s' a) = a_ant (ant_of s a)))"

definition same_slots :: "world \<Rightarrow> world \<Rightarrow> bool" where
  "same_slots s s' = (\<forall>p. p_ant (place_of s' p) = p_ant (place_of s p))"

inductive reachable :: "world \<Rightarrow> bool" where
  start: "(\<forall>p. p_ant (place_of s p) = None) \<Longrightarrow> (\<forall>a. a_ant (ant_of s a) = None) \<Longrightarrow> reachable s"
| constructed: "reachable s \<Longrightarrow> reachable (snd (construct cls s))"
| added: "reachable s \<Longrightarrow> allocated s i \<Longrightarrow> add_insect s p i = Inr s' \<Longrightarrow> reachable s'"
| removed: "reachable s \<Longrightarrow> Place_remove_insect s p i = Inr s' \<Longrightarrow> reachable s'"
| reduced: "reachable s \<Longrightarrow> reduce_armor s i amount = Inr s' \<Longrightarrow> reachable s'"
| other: "reachable s \<Longrightarrow> same_shape s s' \<Longrightarrow> same_slots s s' \<Longrightarrow> reachable s'"


subsection \<open>Presence of an Insect in a Place\<close>

text \<open>
  An Insect is present in a Place when its \<open>place\<close> attribute is that Place and the Place
  holds it: an Ant in the slot \<open>ant\<close>, any other Insect in the list \<open>bees\<close>.  It is absent
  when its \<open>place\<close> attribute is None and the Place does not hold it.
\<close>

definition present :: "world \<Rightarrow> insect \<Rightarrow> nat \<Rightarrow> bool" where
  "present s i p =
     (place s i = Some p \<and>
      (case i of
         AntRef a \<Rightarrow> p_ant (place_of s p) = Some a
       | BeeRef b \<Rightarrow> b \<in> set (p_bees (place_of s p))))"

definition absent :: "world \<Rightarrow> insect \<Rightarrow> nat \<Rightarrow> bool" where
  "absent s i p =
     (place s i = None \<and>
      (case i of
         AntRef a \<Rightarrow> p_ant (place_of s p) \<noteq> Some a
       | BeeRef b \<Rightarrow> b \<notin> set (p_bees (place_of s p))))"

text \<open>
  A tidy Place: no Insect is twice in \<open>bees\<close>, each of them has this Place as its
  \<open>place\<close>, and the Ant in the slot does not contain itself.
\<close>

definition tidy :: "world \<Rightarrow> nat \<Rightarrow> bool" where
  "tidy s p =
     (distinct (p_bees (place_of s p)) \<and>
      (\<forall>b \<in> set (p_bees (place_of s p)). b_place (bee_of s b) = Some p) \<and>
      (\<forall>a. p_ant (place_of s p) = Some a \<longrightarrow> contained_ant s a \<noteq> Some a))"

text \<open>
  An Insect that a Place does not hold yet: an Invader that is not in \<open>bees\<close>, or an Ant
  that does not contain itself.  In a Water Place, every Ant that stays is watersafe.
\<close>

definition newcomer :: "world \<Rightarrow> insect \<Rightarrow> nat \<Rightarrow> bool" where
  "newcomer s i p =
     (case i of
        AntRef a \<Rightarrow> contained_ant s a \<noteq> Some a
      | BeeRef b \<Rightarrow> b \<notin> set (p_bees (place_of s p)))"

definition watersafe_slot :: "world \<Rightarrow> nat \<Rightarrow> bool" where
  "watersafe_slot s p =
     (case p_ant (place_of s p) of
        None \<Rightarrow> True
      | Some c \<Rightarrow> watersafe s (AntRef c))"

subsection \<open>Turns of one Bee\<close>

text \<open>
  What \<open>simulate\<close> does with one Bee in \<open>n\<close> consecutive iterations of its loop:
  \<open>bee.action(colony)\<close>, then \<open>time += 1\<close>.
\<close>

fun bee_turns :: "nat \<Rightarrow> world \<Rightarrow> nat \<Rightarrow> error + world" where
  "bee_turns 0 s bee = Inr s"
| "bee_turns (Suc n) s bee =
     (case Bee_action s bee of
        Inl e \<Rightarrow> Inl e
      | Inr s1 \<Rightarrow> bee_turns n (s1\<lparr>time := time s1 + 1\<rparr>) bee)"

text \<open>
  The state of a Bee on which \<open>apply_effect(make_stun, bee, 1)\<close> and then
  \<open>apply_effect(make_slow, bee, 3)\<close> were called, when the two counts are \<open>c1\<close> and \<open>c2\<close>
  and the time is \<open>t\<close>.
\<close>

definition stun_slow :: "nat \<Rightarrow> int \<Rightarrow> int \<Rightarrow> int \<Rightarrow> world \<Rightarrow> world" where
  "stun_slow bee c1 c2 t s =
     upd_bee bee (\<lambda>x. x\<lparr>b_effects :=
        [\<lparr>c_effect = MakeStun, c_duration = 1, c_count = c1\<rparr>,
         \<lparr>c_effect = MakeSlow, c_duration = 3, c_count = c2\<rparr>]\<rparr>) (s\<lparr>time := t\<rparr>)"

subsection \<open>The range of a ThrowerAnt\<close>

text \<open>
  \<open>hop s pl r\<close> is the Place reached from \<open>pl\<close> by following \<open>entrance\<close> \<open>r\<close> times, if
  there is one.  An Invader is at hop distance \<open>r\<close> from an Ant when it is in the \<open>bees\<close>
  of the Place \<open>r\<close> hops from the Ant's Place.  It is within range when that holds for a
  distance between \<open>min_range\<close> and \<open>max_range\<close> and the Hive is not among the Places from
  the Ant's to that one.
\<close>

fun hop :: "world \<Rightarrow> nat option \<Rightarrow> nat \<Rightarrow> nat option" where
  "hop s pl 0 = pl"
| "hop s pl (Suc r) =
     (case pl of None \<Rightarrow> None | Some p \<Rightarrow> hop s (p_entrance (place_of s p)) r)"

definition at_distance :: "world \<Rightarrow> nat \<Rightarrow> nat \<Rightarrow> nat \<Rightarrow> bool" where
  "at_distance s ant bee r =
     (case hop s (a_place (ant_of s ant)) r of
        None \<Rightarrow> False
      | Some q \<Rightarrow> bee \<in> set (p_bees (place_of s q)))"

definition before_hive :: "world \<Rightarrow> nat \<Rightarrow> nat \<Rightarrow> nat \<Rightarrow> bool" where
  "before_hive s ant hv r = (\<forall>k \<in> {0 .. r}. hop s (a_place (ant_of s ant)) k \<noteq> Some hv)"

definition within_range :: "world \<Rightarrow> nat \<Rightarrow> nat \<Rightarrow> nat \<Rightarrow> bool" where
  "within_range s ant hv bee =
     (\<exists>r \<in> {min_range (a_class (ant_of s ant)) .. max_range (a_class (ant_of s ant))}.
        at_distance s ant bee r \<and> before_hive s ant hv r)"

text \<open>The state after \<open>random.choice\<close> has taken one result from the random source.\<close>

definition drawn :: "world \<Rightarrow> world" where
  "drawn s = (case rng s of [] \<Rightarrow> s | r # rs \<Rightarrow> s\<lparr>rng := rs\<rparr>)"

subsection \<open>Turns of the colony\<close>

text \<open>
  The body of the loop of \<open>simulate\<close> run \<open>k\<close> times, whatever the loop condition says.
\<close>

fun turns :: "nat \<Rightarrow> nat \<Rightarrow> (world \<Rightarrow> error + world) \<Rightarrow> world \<Rightarrow> (error + world) option" where
  "turns 0 n strategy s = Some (Inr s)"
| "turns (Suc k) n strategy s =
     (case turn n strategy s of
        None \<Rightarrow> None
      | Some (Inl e) \<Rightarrow> Some (Inl e)
      | Some (Inr s1) \<Rightarrow> turns k n strategy s1)"

text \<open>A strategy that deploys one HarvesterAnt in the first turn, and nothing afterwards.\<close>

definition harvester_strategy :: "world \<Rightarrow> error + world" where
  "harvester_strategy colony =
     (if time colony = 0 then deploy_ant colony ''tunnel_0_0'' ''Harvester'' else Inr colony)"

subsection \<open>The path of the queen\<close>

text \<open>
  \<open>chain n field s pl\<close> lists the Places that a loop \<open>while place is not None\<close> visits in
  at most \<open>n\<close> iterations, starting from \<open>pl\<close> and following \<open>field\<close>; \<open>ended\<close> says that
  it reaches None within \<open>n\<close> iterations.
\<close>

fun chain :: "nat \<Rightarrow> (place_obj \<Rightarrow> nat option) \<Rightarrow> world \<Rightarrow> nat option \<Rightarrow> nat list" where
  "chain 0 field s pl = []"
| "chain (Suc n) field s pl =
     (case pl of None \<Rightarrow> [] | Some p \<Rightarrow> p # chain n field s (field (place_of s p)))"

fun ended :: "nat \<Rightarrow> (place_obj \<Rightarrow> nat option) \<Rightarrow> world \<Rightarrow> nat option \<Rightarrow> bool" where
  "ended 0 field s pl = False"
| "ended (Suc n) field s pl =
     (case pl of None \<Rightarrow> True | Some p \<Rightarrow> ended n field s (field (place_of s p)))"

text \<open>
  The Places on the path through the queen's Place: from it along \<open>exit\<close>, then from its
  entrance along \<open>entrance\<close>.
\<close>

definition queen_path :: "nat \<Rightarrow> world \<Rightarrow> nat \<Rightarrow> nat list" where
  "queen_path n s self =
     (case a_place (ant_of s self) of
        None \<Rightarrow> []
      | Some own \<Rightarrow>
          chain n p_exit s (Some own) @ chain n p_entrance s (p_entrance (place_of s own)))"

text \<open>
  The Ants of a Place that the queen reaches: the Ant in the slot and the Ant it
  contains, but neither the true queen nor anything in a slot that the true queen
  occupies.
\<close>

definition buffed_at :: "world \<Rightarrow> nat \<Rightarrow> nat list" where
  "buffed_at s p =
     (case p_ant (place_of s p) of
        None \<Rightarrow> []
      | Some a \<Rightarrow>
          if is_queen s (AntRef a) then []
          else a # (case contained_ant s a of
                      None \<Rightarrow> []
                    | Some c \<Rightarrow> if is_queen s (AntRef c) then [] else [c]))"

definition buffed :: "nat \<Rightarrow> world \<Rightarrow> nat \<Rightarrow> nat list" where
  "buffed n s self = concat (map (buffed_at s) (queen_path n s self))"

text \<open>An Ant object after \<open>double_damage\<close>.\<close>

definition doubled :: "ant_obj \<Rightarrow> ant_obj" where
  "doubled x =
     (if a_damage_doubled x then x
      else x\<lparr>a_damage := a_damage x * 2, a_damage_doubled := True\<rparr>)"

text \<open>
  The damage of every Ant is the damage of its class, or twice that when its flag
  \<open>damage_doubled\<close> is set.
\<close>

definition damage_ok :: "world \<Rightarrow> bool" where
  "damage_ok s =
     (\<forall>a. a_damage (ant_of s a) =
            (if a_damage_doubled (ant_of s a) then 2 * damage_class (a_class (ant_of s a))
             else damage_class (a_class (ant_of s a))))"

text \<open>\<open>k\<close> successive actions of the queen.\<close>

fun queen_actions :: "nat \<Rightarrow> nat \<Rightarrow> world \<Rightarrow> nat \<Rightarrow> (error + world) option" where
  "queen_actions 0 n s self = Some (Inr s)"
| "queen_actions (Suc k) n s self =
     (case QueenAnt_action n s self of
        None \<Rightarrow> None
      | Some (Inl e) \<Rightarrow> Some (Inl e)
      | Some (Inr s1) \<Rightarrow> queen_actions k n s1 self)"

text \<open>Two worlds with the same slots, links and nesting: the queen's path reads nothing else.\<close>

definition same_paths :: "world \<Rightarrow> world \<Rightarrow> bool" where
  "same_paths s s' =
     ((\<forall>p. p_ant (place_of s' p) = p_ant (place_of s p) \<and>
           p_exit (place_of s' p) = p_exit (place_of s p) \<and>
           p_entrance (place_of s' p) = p_entrance (place_of s p)) \<and>
      (\<forall>a. a_class (ant_of s' a) = a_class (ant_of s a) \<and>
           a_ant (ant_of s' a) = a_ant (ant_of s a) \<and>
           a_is_true_queen (ant_of s' a) = a_is_true_queen (ant_of s a) \<and>
           a_place (ant_of s' a) = a_place (ant_of s a)))"

subsection \<open>A small colony\<close>

text \<open>
  The class attribute \<open>name\<close>, and the registry \<open>OrderedDict((a.name, a) for a in ant_types())\<close>
  of the implemented classes.
\<close>

definition implemented_ant_types :: "(string \<times> ant_class) list" where
  "implemented_ant_types =
     [(''Harvester'', HarvesterAnt), (''Thrower'', ThrowerAnt), (''Fire'', FireAnt),
      (''Wall'', WallAnt), (''Ninja'', NinjaAnt), (''Hungry'', HungryAnt),
      (''Remover'', AntRemover), (''Long'', LongThrower), (''Short'', ShortThrower),
      (''Scuba'', ScubaThrower), (''Slow'', SlowThrower), (''Stun'', StunThrower),
      (''Queen'', QueenAnt)]"

definition new_place :: "place_class \<Rightarrow> string \<Rightarrow> nat option \<Rightarrow> nat option \<Rightarrow> place_obj" where
  "new_place cls name ex en =
     \<lparr>p_class = cls, p_name = name, p_exit = ex, p_entrance = en, p_bees = [], p_ant = None\<rparr>"

definition new_ant :: "ant_class \<Rightarrow> ant_obj" where
  "new_ant cls =
     \<lparr>a_class = cls, a_armor = initial_armor cls, a_place = None, a_damage = damage_class cls,
      a_damage_doubled = False, a_ant = None, a_is_true_queen = False, a_digesting = 0\<rparr>"

definition new_bee :: "int \<Rightarrow> bee_obj" where
  "new_bee k = \<lparr>b_class = Bee, b_armor = k, b_place = None, b_effects = []\<rparr>"

text \<open>
  The colony that \<open>AntColony(strategy, Hive(AssaultPlan()), ant_types(), layout)\<close> builds for
  an empty assault plan and a layout of one tunnel of three places, the middle one Water:
  place 0 is \<open>AntQueen\<close>, place 1 the Hive, places 2, 3, 4 the tunnel from the queen's side
  to the hive's side.  No Ant has been constructed.
\<close>

definition colony0 :: world where
  "colony0 =
     \<lparr>ant_of = (\<lambda>_. new_ant Ant),
      bee_of = (\<lambda>_. new_bee 3),
      place_of = (\<lambda>_. new_place Place [] None None)
        (0 := new_place Place ''AntQueen'' None (Some 2),
         1 := new_place Hive ''Hive'' None None,
         2 := new_place Place ''tunnel_0_0'' (Some 0) (Some 3),
         3 := new_place Water ''water_0_1'' (Some 2) (Some 4),
         4 := new_place Place ''tunnel_0_2'' (Some 3) (Some 1)),
      next_ant = 0,
      queen_flag = True,
      time = 0,
      food = 2,
      queen = PlaceRef 0,
      hive = 1,
      places = [(''Hive'', 1), (''tunnel_0_0'', 2), (''water_0_1'', 3), (''tunnel_0_2'', 4)],
      ant_types = implemented_ant_types,
      assault_plan = (\<lambda>_. []),
      rng = [],
      stdout = []\<rparr>"

text \<open>The result of a call that is known to return.\<close>

definition returned :: "error + world \<Rightarrow> world" where
  "returned r = (case r of Inr s \<Rightarrow> s | Inl e \<Rightarrow> colony0)"

text \<open>A call that has returned within the iterations allowed, and its result.\<close>

definition has_returned :: "(error + world) option \<Rightarrow> bool" where
  "has_returned r = (case r of Some (Inr s) \<Rightarrow> True | _ \<Rightarrow> False)"

definition finished :: "(error + world) option \<Rightarrow> world" where
  "finished r = (case r of Some (Inr s) \<Rightarrow> s | _ \<Rightarrow> colony0)"

text \<open>A BodyguardAnt (ant 0), then a ThrowerAnt (ant 1), are added to place 2.\<close>

definition guarded :: world where
  "guarded =
     returned (Place_add_insect
       (snd (construct ThrowerAnt
          (returned (Place_add_insect (snd (construct BodyguardAnt colony0)) 2 (AntRef 0)))))
       2 (AntRef 1))"

text \<open>The first QueenAnt constructed (ant 0, the true queen) is added to place 2.\<close>

definition queened :: world where
  "queened = returned (Place_add_insect (snd (construct QueenAnt colony0)) 2 (AntRef 0))"


text \<open>
  Bee 0 is added to place 4, at the hive's end of the tunnel.  In \<open>slowed\<close> it then
  receives a slow effect of duration 3, at time 0; in \<open>stunned_slowed\<close> a stun effect of
  duration 1 and then a slow effect of duration 3, at time 1.
\<close>

definition invaded :: world where
  "invaded = returned (Place_add_insect colony0 4 (BeeRef 0))"

definition slowed :: world where
  "slowed = returned (apply_effect MakeSlow 0 3 invaded)"

definition stunned_slowed :: world where
  "stunned_slowed =
     returned (apply_effect MakeSlow 0 3
       (returned (apply_effect MakeStun 0 1 (invaded\<lparr>time := 1\<rparr>))))"

text \<open>
  Bee 0 is in the Hive (place 1), where \<open>Hive.__init__\<close> puts every Bee of the plan; a
  ThrowerAnt (ant 0) is added to place 4, whose entrance is the Hive.
\<close>

definition besieged :: world where
  "besieged =
     returned (Place_add_insect
       (snd (construct ThrowerAnt (returned (Place_add_insect colony0 1 (BeeRef 0))))) 4 (AntRef 0))"

text \<open>Bee 0 is in place 4; a ThrowerAnt (ant 0) is added to place 2.\<close>

definition defended :: world where
  "defended = returned (Place_add_insect (snd (construct ThrowerAnt invaded)) 2 (AntRef 0))"


text \<open>
  A ThrowerAnt (ant 0) in place 2, the true queen (ant 1) in the Water place 3, and in
  place 4 a BodyguardAnt (ant 2) that contains a ThrowerAnt (ant 3).
\<close>

definition court :: world where
  "court =
     returned (add_insect (snd (construct ThrowerAnt
       (returned (add_insect (snd (construct BodyguardAnt
          (returned (add_insect (snd (construct QueenAnt
             (returned (add_insect (snd (construct ThrowerAnt colony0)) 2 (AntRef 0)))))
           3 (AntRef 1)))))
        4 (AntRef 2)))))
      4 (AntRef 3))"

section \<open>Proofs\<close>

subsection \<open>Reading a field after an update\<close>

lemma upd_ant_simps [simp]:
  "ant_of (upd_ant a f s) = (ant_of s)(a := f (ant_of s a))"
  "bee_of (upd_ant a f s) = bee_of s"
  "place_of (upd_ant a f s) = place_of s"
  "next_ant (upd_ant a f s) = next_ant s"
  "queen_flag (upd_ant a f s) = queen_flag s"
  "time (upd_ant a f s) = time s"
  "food (upd_ant a f s) = food s"
  "queen (upd_ant a f s) = queen s"
  "hive (upd_ant a f s) = hive s"
  "places (upd_ant a f s) = places s"
  "ant_types (upd_ant a f s) = ant_types s"
  "assault_plan (upd_ant a f s) = assault_plan s"
  "rng (upd_ant a f s) = rng s"
  "stdout (upd_ant a f s) = stdout s"
  by (simp_all add: upd_ant_def)

lemma upd_bee_simps [simp]:
  "ant_of (upd_bee b g s) = ant_of s"
  "bee_of (upd_bee b g s) = (bee_of s)(b := g (bee_of s b))"
  "place_of (upd_bee b g s) = place_of s"
  "next_ant (upd_bee b g s) = next_ant s"
  "queen_flag (upd_bee b g s) = queen_flag s"
  "time (upd_bee b g s) = time s"
  "food (upd_bee b g s) = food s"
  "queen (upd_bee b g s) = queen s"
  "hive (upd_bee b g s) = hive s"
  "places (upd_bee b g s) = places s"
  "ant_types (upd_bee b g s) = ant_types s"
  "assault_plan (upd_bee b g s) = assault_plan s"
  "rng (upd_bee b g s) = rng s"
  "stdout (upd_bee b g s) = stdout s"
  by (simp_all add: upd_bee_def)

lemma upd_place_simps [simp]:
  "ant_of (upd_place p h s) = ant_of s"
  "bee_of (upd_place p h s) = bee_of s"
  "place_of (upd_place p h s) = (place_of s)(p := h (place_of s p))"
  "next_ant (upd_place p h s) = next_ant s"
  "queen_flag (upd_place p h s) = queen_flag s"
  "time (upd_place p h s) = time s"
  "food (upd_place p h s) = food s"
  "queen (upd_place p h s) = queen s"
  "hive (upd_place p h s) = hive s"
  "places (upd_place p h s) = places s"
  "ant_types (upd_place p h s) = ant_types s"
  "assault_plan (upd_place p h s) = assault_plan s"
  "rng (upd_place p h s) = rng s"
  "stdout (upd_place p h s) = stdout s"
  by (simp_all add: upd_place_def)

lemma print_simps [simp]:
  "ant_of (print m s) = ant_of s"
  "bee_of (print m s) = bee_of s"
  "place_of (print m s) = place_of s"
  "next_ant (print m s) = next_ant s"
  "queen_flag (print m s) = queen_flag s"
  "time (print m s) = time s"
  "food (print m s) = food s"
  "queen (print m s) = queen s"
  "hive (print m s) = hive s"
  "places (print m s) = places s"
  "ant_types (print m s) = ant_types s"
  "assault_plan (print m s) = assault_plan s"
  "rng (print m s) = rng s"
  "stdout (print m s) = stdout s @ [m]"
  by (simp_all add: print_def)

subsection \<open>The occupancy invariant\<close>

lemma container_iff [simp]: "container c = (c = BodyguardAnt)"
  by (cases c) simp_all

lemma same_inv: "same_shape s s' \<Longrightarrow> same_slots s s' \<Longrightarrow> nested_inv s \<Longrightarrow> nested_inv s'"
  by (simp add: same_shape_def same_slots_def nested_inv_def)

lemma remove_inv: "Place_remove_insect s p i = Inr s' \<Longrightarrow> nested_inv s \<Longrightarrow> nested_inv s'"
  by (cases i)
     (auto simp: Place_remove_insect_def nested_inv_def contained_ant_def split: if_splits)

lemma Insect_reduce_inv:
  assumes "Insect_reduce_armor s i k = Inr s'" "nested_inv s"
  shows "nested_inv s'"
proof -
  let ?s1 = "set_armor i (armor s i - k) s"
  have a: "nested_inv ?s1" "nested_inv (print (Expired i) ?s1)"
    using assms(2) by (cases i; simp add: nested_inv_def)+
  from assms(1) show ?thesis
    unfolding Insect_reduce_armor_def Let_def
    using a by (auto split: if_splits option.splits dest: remove_inv)
qed

lemma reduce_each_inv: "reduce_each s bs d = Inr s' \<Longrightarrow> nested_inv s \<Longrightarrow> nested_inv s'"
proof (induction bs arbitrary: s)
  case Nil
  then show ?case by simp
next
  case (Cons b bs)
  then show ?case
    by (auto split: sum.splits dest: Insect_reduce_inv)
qed

lemma reduce_inv: "reduce_armor s i k = Inr s' \<Longrightarrow> nested_inv s \<Longrightarrow> nested_inv s'"
  unfolding reduce_armor_def FireAnt_reduce_armor_def
  by (auto split: insect.splits if_splits option.splits sum.splits
           dest: Insect_reduce_inv reduce_each_inv)

lemma Place_add_inv:
  assumes "nested_inv s" "allocated s i" "Place_add_insect s p i = Inr s'"
  shows "nested_inv s'"
proof (cases i)
  case (BeeRef b)
  with assms show ?thesis
    by (auto simp: Place_add_insect_def nested_inv_def split: if_splits)
next
  case (AntRef a)
  with assms show ?thesis
    by (auto simp: Place_add_insect_def nested_inv_def allocated_def can_contain_def contain_ant_def
                   contained_ant_def
             split: option.splits if_splits sum.splits)
qed

lemma Place_add_outcome:
  "(\<exists>s'. Place_add_insect s p i = Inr s') \<or> Place_add_insect s p i = Inl AssertionError"
  by (cases i)
     (auto simp: Place_add_insect_def can_contain_def contain_ant_def contained_ant_def
           split: option.splits if_splits sum.splits)

lemma add_inv:
  assumes "nested_inv s" "allocated s i" "add_insect s p i = Inr s'"
  shows "nested_inv s'"
proof (cases "p_class (place_of s p) = Water")
  case False
  with assms show ?thesis by (auto simp: add_insect_def dest: Place_add_inv)
next
  case True
  with assms obtain s1 where
    1: "Place_add_insect (print (Added i (watersafe s i)) s) p i = Inr s1" and
    2: "s' = s1 \<or> reduce_armor s1 i (armor s1 i) = Inr s'"
    by (auto simp: add_insect_def Water_add_insect_def split: sum.splits if_splits)
  have "nested_inv (print (Added i (watersafe s i)) s)" "allocated (print (Added i (watersafe s i)) s) i"
    using assms(1,2) by (simp_all add: nested_inv_def allocated_def split: insect.splits)
  from Place_add_inv[OF this 1] have "nested_inv s1" by simp
  with 2 show ?thesis by (auto dest: reduce_inv)
qed

lemma construct_inv: "nested_inv s \<Longrightarrow> nested_inv (snd (construct cls s))"
  by (auto simp: nested_inv_def construct_def less_Suc_eq)

lemma reachable_inv: "reachable s \<Longrightarrow> nested_inv s"
proof (induction rule: reachable.induct)
  case (start s)
  then show ?case by (simp add: nested_inv_def)
next
  case (constructed s cls)
  then show ?case by (simp add: construct_inv)
next
  case (added s i p s')
  then show ?case by (auto intro: add_inv)
next
  case (removed s p i s')
  then show ?case by (auto dest: remove_inv)
next
  case (reduced s i amount s')
  then show ?case by (auto dest: reduce_inv)
next
  case (other s s')
  then show ?case by (auto dest: same_inv)
qed

lemma inv_slot_ok: "nested_inv s \<Longrightarrow> slot_ok s p"
  by (auto simp: nested_inv_def slot_ok_def contained_ant_def split: option.splits)

lemma returned_eq: "\<not> isl r \<Longrightarrow> r = Inr (returned r)"
  by (cases r) (simp_all add: returned_def)

lemma returned_Inr [simp]: "returned (Inr s) = s"
  by (simp add: returned_def)

text \<open>
  C1.  In every reachable state the Defender slot of every Place holds nothing, or one
  non-container Ant, or one container that nests nothing or exactly one non-container
  Ant; and \<open>Place.add_insect\<close> either returns a state in which this holds for every
  Place, or raises AssertionError.
\<close>

theorem slot_invariant:
  "reachable s \<Longrightarrow>
     slot_ok s p \<and>
     (allocated s i \<longrightarrow>
        (\<exists>s'. Place_add_insect s p i = Inr s' \<and> (\<forall>q. slot_ok s' q))
        \<or> Place_add_insect s p i = Inl AssertionError)"
proof -
  assume "reachable s"
  then have inv: "nested_inv s" by (rule reachable_inv)
  then have "slot_ok s p" by (rule inv_slot_ok)
  moreover have "(\<exists>s'. Place_add_insect s p i = Inr s' \<and> (\<forall>q. slot_ok s' q))
         \<or> Place_add_insect s p i = Inl AssertionError" if al: "allocated s i"
    using Place_add_outcome[of s p i] Place_add_inv[OF inv al] inv_slot_ok by blast
  ultimately show ?thesis by blast
qed

lemmas world_defs =
  colony0_def new_place_def new_ant_def new_bee_def implemented_ant_types_def construct_def

lemmas place_defs =
  Place_add_insect_def Place_remove_insect_def can_contain_def contain_ant_def contained_ant_def

lemma guarded_reachable: "reachable guarded"
proof -
  have 0: "reachable colony0"
    by (rule reachable.start) (simp_all add: world_defs)
  let ?s1 = "snd (construct BodyguardAnt colony0)"
  let ?s2 = "returned (Place_add_insect ?s1 2 (AntRef 0))"
  let ?s3 = "snd (construct ThrowerAnt ?s2)"
  have 1: "reachable ?s1" using 0 by (rule reachable.constructed)
  have "\<not> isl (Place_add_insect ?s1 2 (AntRef 0))"
    by (simp add: world_defs place_defs)
  then have "add_insect ?s1 2 (AntRef 0) = Inr ?s2"
    by (simp add: returned_eq[symmetric] add_insect_def world_defs)
  moreover have "allocated ?s1 (AntRef 0)" by (simp add: allocated_def world_defs)
  ultimately have 2: "reachable ?s2" using 1 reachable.added by blast
  then have 3: "reachable ?s3" by (rule reachable.constructed)
  have "\<not> isl (Place_add_insect ?s3 2 (AntRef 1))"
    by (simp add: world_defs place_defs)
  then have "add_insect ?s3 2 (AntRef 1) = Inr guarded"
    by (simp add: returned_eq[symmetric] add_insect_def guarded_def world_defs place_defs)
  moreover have "allocated ?s3 (AntRef 1)" by (simp add: allocated_def world_defs place_defs)
  ultimately show ?thesis using 3 reachable.added by blast
qed

theorem slot_invariant_witness:
  "reachable guarded \<and> allocated guarded (AntRef 1) \<and> slot_ok guarded 2 \<and>
   p_ant (place_of guarded 2) = Some 0 \<and> contained_ant guarded 0 = Some 1 \<and>
   Place_add_insect guarded 2 (AntRef 1) = Inl AssertionError"
proof -
  have al: "allocated guarded (AntRef 1)"
    by (simp add: allocated_def guarded_def world_defs place_defs)
  have ev: "p_ant (place_of guarded 2) = Some 0" "contained_ant guarded 0 = Some 1"
       "Place_add_insect guarded 2 (AntRef 1) = Inl AssertionError"
    by (simp_all add: guarded_def world_defs place_defs)
  show ?thesis
    using slot_invariant[OF guarded_reachable, of 2 "AntRef 1"] guarded_reachable al ev by simp
qed


subsection \<open>The outcome of reduce_armor\<close>

lemma Insect_reduce_bee:
  assumes "b \<in> set (p_bees (place_of s p))" "b_place (bee_of s b) = Some p"
  shows "Insect_reduce_armor s (BeeRef b) k =
          Inr (if b_armor (bee_of s b) - k \<le> 0
               then set_place (BeeRef b) None
                      (upd_place p (\<lambda>x. x\<lparr>p_bees := remove1 b (p_bees x)\<rparr>)
                         (print (Expired (BeeRef b)) (set_armor (BeeRef b) (b_armor (bee_of s b) - k) s)))
               else set_armor (BeeRef b) (b_armor (bee_of s b) - k) s)"
  using assms by (simp add: Insect_reduce_armor_def Let_def Place_remove_insect_def)

lemma reduce_each_frame:
  assumes "distinct bs" "set bs \<subseteq> set (p_bees (place_of s p))"
          "\<forall>b \<in> set bs. b_place (bee_of s b) = Some p"
  shows "\<exists>s'. reduce_each s bs d = Inr s' \<and> ant_of s' = ant_of s \<and>
              (\<forall>q. p_ant (place_of s' q) = p_ant (place_of s q)) \<and>
              (\<forall>q. q \<noteq> p \<longrightarrow> place_of s' q = place_of s q)"
  using assms
proof (induction bs arbitrary: s)
  case Nil
  then show ?case by simp
next
  case (Cons b bs)
  have b: "b \<in> set (p_bees (place_of s p))" "b_place (bee_of s b) = Some p"
    using Cons.prems by auto
  obtain s1 where 1: "Insect_reduce_armor s (BeeRef b) d = Inr s1"
    using Insect_reduce_bee[OF b, of d] by simp
  note eq = 1[unfolded Insect_reduce_bee[OF b, of d] sum.inject, symmetric]
  have fr: "ant_of s1 = ant_of s" "\<forall>q. p_ant (place_of s1 q) = p_ant (place_of s q)"
       "\<forall>q. q \<noteq> p \<longrightarrow> place_of s1 q = place_of s q"
    by (simp_all add: eq)
  have "x \<in> set (remove1 b (p_bees (place_of s p)))" if "x \<in> set bs" for x
  proof -
    from that Cons.prems have "x \<noteq> b" "x \<in> set (p_bees (place_of s p))" by auto
    then show ?thesis by (simp add: in_set_remove1)
  qed
  then have "set bs \<subseteq> set (p_bees (place_of s1 p))"
    using Cons.prems by (auto simp: eq)
  moreover have "\<forall>x \<in> set bs. b_place (bee_of s1 x) = Some p"
    using Cons.prems by (auto simp: eq)
  moreover have "distinct bs" using Cons.prems by simp
  ultimately obtain s' where
    "reduce_each s1 bs d = Inr s'" "ant_of s' = ant_of s1"
    "\<forall>q. p_ant (place_of s' q) = p_ant (place_of s1 q)"
    "\<forall>q. q \<noteq> p \<longrightarrow> place_of s' q = place_of s1 q"
    using Cons.IH[of s1] by blast
  then show ?case using 1 fr by simp
qed

lemma Insect_reduce_ant:
  assumes "p_ant (place_of s p) = Some a" "a_place (ant_of s a) = Some p"
  shows "Insect_reduce_armor s (AntRef a) k =
          Inr (if a_armor (ant_of s a) - k \<le> 0
               then (if is_queen s (AntRef a)
                     then print (Expired (AntRef a)) (set_armor (AntRef a) (a_armor (ant_of s a) - k) s)
                     else set_place (AntRef a) None
                            (upd_place p (\<lambda>x. x\<lparr>p_ant := contained_ant s a\<rparr>)
                               (print (Expired (AntRef a))
                                  (set_armor (AntRef a) (a_armor (ant_of s a) - k) s))))
               else set_armor (AntRef a) (a_armor (ant_of s a) - k) s)"
  using assms
  by (simp add: Insect_reduce_armor_def Let_def Place_remove_insect_def contained_ant_def)

lemma Insect_reduce_outcome:
  assumes "present s i p" "tidy s p"
  shows "\<exists>s'. Insect_reduce_armor s i k = Inr s' \<and> armor s' i = armor s i - k \<and>
           (if 0 < armor s i - k \<or> is_queen s i then present s' i p else absent s' i p)"
proof (cases i)
  case (AntRef a)
  with assms have h: "p_ant (place_of s p) = Some a" "a_place (ant_of s a) = Some p"
    "contained_ant s a \<noteq> Some a"
    by (auto simp: present_def tidy_def)
  show ?thesis
    unfolding AntRef Insect_reduce_ant[OF h(1,2)]
    using h by (auto simp: present_def absent_def)
next
  case (BeeRef b)
  with assms have h: "b \<in> set (p_bees (place_of s p))" "b_place (bee_of s b) = Some p"
    "distinct (p_bees (place_of s p))"
    by (auto simp: present_def tidy_def)
  show ?thesis
    unfolding BeeRef Insect_reduce_bee[OF h(1,2)]
    using h by (auto simp: present_def absent_def)
qed

lemma reduce_armor_total:
  assumes "present s i p" "tidy s p"
  shows "\<exists>s'. reduce_armor s i k = Inr s' \<and> armor s' i = armor s i - k \<and>
           (if 0 < armor s i - k \<or> is_queen s i then present s' i p else absent s' i p)"
proof (cases "\<exists>a. i = AntRef a \<and> a_class (ant_of s a) = FireAnt \<and> a_armor (ant_of s a) \<le> k")
  case False
  then have "reduce_armor s i k = Insect_reduce_armor s i k"
    by (auto simp: reduce_armor_def FireAnt_reduce_armor_def split: insect.splits)
  then show ?thesis using Insect_reduce_outcome[OF assms] by simp
next
  case True
  then obtain a where a: "i = AntRef a" "a_class (ant_of s a) = FireAnt" "a_armor (ant_of s a) \<le> k"
    by blast
  from assms a have pl: "a_place (ant_of s a) = Some p" "p_ant (place_of s p) = Some a"
    by (auto simp: present_def)
  from assms(2) have "distinct (p_bees (place_of s p))"
    "\<forall>b \<in> set (p_bees (place_of s p)). b_place (bee_of s b) = Some p"
    by (auto simp: tidy_def)
  from reduce_each_frame[OF this(1) subset_refl this(2), of "a_damage (ant_of s a)"]
  obtain s1 where s1: "reduce_each s (p_bees (place_of s p)) (a_damage (ant_of s a)) = Inr s1"
    "ant_of s1 = ant_of s" "\<forall>q. p_ant (place_of s1 q) = p_ant (place_of s q)"
    by blast
  have red: "reduce_armor s (AntRef a) k = Insect_reduce_armor s1 (AntRef a) k"
    using a pl s1 by (simp add: reduce_armor_def FireAnt_reduce_armor_def)
  have h: "p_ant (place_of s1 p) = Some a" "a_place (ant_of s1 a) = Some p"
    using pl s1 by simp_all
  have c: "contained_ant s1 a \<noteq> Some a"
    using a(2) s1 by (simp add: contained_ant_def)
  show ?thesis
    unfolding a(1) red Insect_reduce_ant[OF h]
    using h c s1 a by (auto simp: present_def absent_def contained_ant_def)
qed


subsection \<open>Water\<close>


lemma print_tidy [simp]:
  "tidy (print m s) p = tidy s p" "newcomer (print m s) i p = newcomer s i p"
  "watersafe_slot (print m s) p = watersafe_slot s p" "watersafe (print m s) i = watersafe s i"
  "armor (print m s) i = armor s i"
  by (cases i; simp add: tidy_def newcomer_def watersafe_slot_def contained_ant_def split: option.splits)+






lemmas reduce_defs =
  reduce_armor_def FireAnt_reduce_armor_def Insect_reduce_armor_def Let_def

text \<open>
  C2 (as amended).  For an Insect present in a tidy Place, \<open>reduce_armor(k)\<close> returns and
  leaves the armor reduced by \<open>k\<close>; the Insect is still present when the new armor is
  positive or when it is the true queen, and absent otherwise.
\<close>

theorem reduce_armor_outcome:
  "present s i p \<Longrightarrow> tidy s p \<Longrightarrow>
     \<exists>s'. reduce_armor s i k = Inr s' \<and> armor s' i = armor s i - k \<and>
          (if 0 < armor s i - k \<or> is_queen s i then present s' i p else absent s' i p)"
  by (rule reduce_armor_total)

theorem reduce_armor_outcome_witness:
  "present guarded (AntRef 0) 2 \<and> tidy guarded 2 \<and>
   armor (returned (reduce_armor guarded (AntRef 0) 2)) (AntRef 0) = 0 \<and>
   absent (returned (reduce_armor guarded (AntRef 0) 2)) (AntRef 0) 2"
proof -
  have h: "present guarded (AntRef 0) 2" "tidy guarded 2"
    by (simp_all add: present_def tidy_def guarded_def world_defs place_defs)
  have v: "armor guarded (AntRef 0) = 2" "\<not> is_queen guarded (AntRef 0)"
    by (simp_all add: guarded_def world_defs place_defs)
  from reduce_armor_outcome[OF h, of 2] v h show ?thesis by auto
qed

text \<open>
  C2, as stated, fails for the true queen: with armor 1 and present in place 2, she is
  still present after \<open>reduce_armor(1)\<close>, with armor 0.
\<close>

theorem reduce_armor_queen_counterexample:
  "present queened (AntRef 0) 2 \<and> armor queened (AntRef 0) = 1 \<and>
   \<not> isl (reduce_armor queened (AntRef 0) 1) \<and>
   present (returned (reduce_armor queened (AntRef 0) 1)) (AntRef 0) 2 \<and>
   \<not> absent (returned (reduce_armor queened (AntRef 0) 1)) (AntRef 0) 2 \<and>
   armor (returned (reduce_armor queened (AntRef 0) 1)) (AntRef 0) = 0"
  by (simp add: queened_def world_defs place_defs reduce_defs present_def absent_def)




text \<open>
  C10.  \<open>reduce_armor\<close> on an Insect without a Place raises AttributeError when the amount
  is at least its armor, and returns with the armor reduced when it is smaller; so a
  call that returns had a Place or left the armor positive.
\<close>

theorem reduce_armor_needs_place:
  "(place s i = None \<and> armor s i \<le> amount \<longrightarrow> reduce_armor s i amount = Inl AttributeError) \<and>
   (place s i = None \<and> amount < armor s i \<longrightarrow>
      reduce_armor s i amount = Inr (set_armor i (armor s i - amount) s)) \<and>
   (\<forall>s'. reduce_armor s i amount = Inr s' \<longrightarrow> place s i \<noteq> None \<or> 0 < armor s i - amount)"
  by (cases i)
     (auto simp: reduce_defs split: option.splits sum.splits if_splits)

theorem reduce_armor_needs_place_witness:
  "place colony0 (BeeRef 0) = None \<and> armor colony0 (BeeRef 0) \<le> 3 \<and>
   reduce_armor colony0 (BeeRef 0) 3 = Inl AttributeError \<and>
   (2::int) < armor colony0 (BeeRef 0) \<and>
   armor (returned (reduce_armor colony0 (BeeRef 0) 2)) (BeeRef 0) = 1 \<and>
   0 < armor colony0 (BeeRef 0) - 2"
proof -
  have h: "place colony0 (BeeRef 0) = None" "armor colony0 (BeeRef 0) = 3"
    by (simp_all add: world_defs)
  from reduce_armor_needs_place[of colony0 "BeeRef 0" 3] reduce_armor_needs_place[of colony0 "BeeRef 0" 2] h
  show ?thesis by simp
qed


subsection \<open>Slow and stun\<close>

lemma action_fn_0 [simp]: "action_fn b 0 = Bee__action"
  by (simp add: action_fn_def)

lemma action_fn_Suc [simp]: "action_fn b (Suc n) = duration_effect b n (action_fn b n)"
  by (simp add: action_fn_def)

lemma duration_effect_active:
  assumes "c_count (b_effects (bee_of s b) ! j) < c_duration (b_effects (bee_of s b) ! j)"
  shows "duration_effect b j action s b =
           (case c_effect (b_effects (bee_of s b) ! j) of
              MakeSlow \<Rightarrow> if time s mod 2 = 0 then action (bump_count b j s) b
                          else Inr (bump_count b j s)
            | MakeStun \<Rightarrow> Inr (bump_count b j s))"
  using assms
  by (simp add: duration_effect_def Let_def make_slow_def make_stun_def bump_count_def
           split: effect.splits)

lemma duration_effect_expired:
  assumes "\<not> c_count (b_effects (bee_of s b) ! j) < c_duration (b_effects (bee_of s b) ! j)"
  shows "duration_effect b j action s b = action s b"
  using assms by (simp add: duration_effect_def Let_def)

text \<open>
  C3 (as amended).  While the count of a closure is below its duration, a slow effect
  calls the wrapped action only when \<open>colony.time\<close> is even and skips it when the time is
  odd, and a stun effect never calls it; in both cases the count goes up by one.  For a
  Bee with one such effect the wrapped action is \<open>Bee._action\<close>.
\<close>

theorem slow_and_stun:
  "(j < length (b_effects (bee_of s b)) \<and>
    c_count (b_effects (bee_of s b) ! j) < c_duration (b_effects (bee_of s b) ! j) \<longrightarrow>
      duration_effect b j action s b =
        (case c_effect (b_effects (bee_of s b) ! j) of
           MakeSlow \<Rightarrow> if time s mod 2 = 0 then action (bump_count b j s) b
                       else Inr (bump_count b j s)
         | MakeStun \<Rightarrow> Inr (bump_count b j s))) \<and>
   (b_effects (bee_of s b) = [c] \<and> c_count c < c_duration c \<longrightarrow>
      Bee_action s b =
        (case c_effect c of
           MakeSlow \<Rightarrow> if time s mod 2 = 0 then Bee__action (bump_count b 0 s) b
                       else Inr (bump_count b 0 s)
         | MakeStun \<Rightarrow> Inr (bump_count b 0 s)))"
  using duration_effect_active[of s b j action] duration_effect_active[of s b 0 Bee__action]
  by (auto simp: Bee_action_def)

lemmas bee_defs = Bee_action_def Bee__action_def Bee_blocked_def Bee_move_to_def Bee_sting_def
  duration_effect_def bump_count_def make_slow_def make_stun_def apply_effect_def
  add_insect_def Water_add_insect_def

theorem slow_and_stun_witness:
  "b_effects (bee_of slowed 0) = [\<lparr>c_effect = MakeSlow, c_duration = 3, c_count = 0\<rparr>] \<and>
   time slowed mod 2 = 0 \<and>
   duration_effect 0 0 Bee__action slowed 0 = Bee__action (bump_count 0 0 slowed) 0 \<and>
   Bee_action slowed 0 = Bee__action (bump_count 0 0 slowed) 0 \<and>
   Bee_action (slowed\<lparr>time := 1\<rparr>) 0 = Inr (bump_count 0 0 (slowed\<lparr>time := 1\<rparr>))"
proof -
  have h: "b_effects (bee_of slowed 0) = [\<lparr>c_effect = MakeSlow, c_duration = 3, c_count = 0\<rparr>]"
    "time slowed = 0"
    by (simp_all add: slowed_def invaded_def world_defs place_defs apply_effect_def)
  from slow_and_stun[where s = slowed and b = 0 and j = 0 and action = Bee__action
                       and c = "\<lparr>c_effect = MakeSlow, c_duration = 3, c_count = 0\<rparr>"]
       slow_and_stun[where s = "slowed\<lparr>time := 1\<rparr>" and b = 0 and j = 0 and action = Bee__action
                       and c = "\<lparr>c_effect = MakeSlow, c_duration = 3, c_count = 0\<rparr>"] h
  show ?thesis by simp
qed

text \<open>
  C3, as stated, has the parity wrong: a Bee with an active slow effect (count 0,
  duration 3) moves from place 4 to place 3 when the time is 0, and stays when it is 1.
\<close>

theorem slow_counterexample:
  "time slowed = 0 \<and> b_place (bee_of slowed 0) = Some 4 \<and>
   map c_count (b_effects (bee_of slowed 0)) = [0] \<and>
   map c_duration (b_effects (bee_of slowed 0)) = [3] \<and>
   b_place (bee_of (returned (Bee_action slowed 0)) 0) = Some 3 \<and>
   b_place (bee_of (returned (Bee_action (slowed\<lparr>time := 1\<rparr>) 0)) 0) = Some 4"
  by (simp add: slowed_def invaded_def world_defs place_defs bee_defs Let_def)


lemma stun_slow_time [simp]:
  "(stun_slow b c1 c2 t s)\<lparr>time := t'\<rparr> = stun_slow b c1 c2 t' s"
  "time (stun_slow b c1 c2 t s) = t"
  "b_effects (bee_of (stun_slow b c1 c2 t s) b) =
     [\<lparr>c_effect = MakeStun, c_duration = 1, c_count = c1\<rparr>,
      \<lparr>c_effect = MakeSlow, c_duration = 3, c_count = c2\<rparr>]"
  by (simp_all add: stun_slow_def upd_bee_def)

lemma stun_slow_bump [simp]:
  "bump_count b 0 (stun_slow b c1 c2 t s) = stun_slow b (c1 + 1) c2 t s"
  "bump_count b (Suc 0) (stun_slow b c1 c2 t s) = stun_slow b c1 (c2 + 1) t s"
  by (simp_all add: stun_slow_def upd_bee_def bump_count_def)

lemma stun_slow_apply:
  assumes "b_class (bee_of s b) = Bee" "b_effects (bee_of s b) = []"
  shows "apply_effect MakeStun b 1 s =
           Inr (upd_bee b (\<lambda>x. x\<lparr>b_effects := [\<lparr>c_effect = MakeStun, c_duration = 1, c_count = 0\<rparr>]\<rparr>) s)"
    and "apply_effect MakeSlow b 3
           (upd_bee b (\<lambda>x. x\<lparr>b_effects := [\<lparr>c_effect = MakeStun, c_duration = 1, c_count = 0\<rparr>]\<rparr>) s)
         = Inr (stun_slow b 0 0 (time s) s)"
  using assms by (simp_all add: apply_effect_def stun_slow_def upd_bee_def)

lemma Bee_action_stun_slow:
  "Bee_action (stun_slow b c1 c2 t s) b =
     (if c2 < 3 then
        (if t mod 2 = 0 then
           (if c1 < 1 then Inr (stun_slow b (c1 + 1) (c2 + 1) t s)
            else Bee__action (stun_slow b c1 (c2 + 1) t s) b)
         else Inr (stun_slow b c1 (c2 + 1) t s))
      else if c1 < 1 then Inr (stun_slow b (c1 + 1) c2 t s)
      else Bee__action (stun_slow b c1 c2 t s) b)"
  by (simp add: Bee_action_def numeral_2_eq_2 duration_effect_def Let_def make_slow_def make_stun_def)

text \<open>
  C4 (as amended).  A Bee without effects receives a stun of duration 1 and then a slow
  of duration 3.  The slow closure, registered last, is outermost and counts the next
  three turns of the Bee; the stun is spent in the first of them whose time is even.
  Applied at an even time: the Bee does not act in its first two turns, and its third
  turn is \<open>Bee._action\<close>.  Applied at an odd time: the Bee does not act in its first three
  turns.  Once the counts are 1 and 3, every turn is \<open>Bee._action\<close>.
\<close>

theorem stun_then_slow:
  "b_class (bee_of s b) = Bee \<and> b_effects (bee_of s b) = [] \<longrightarrow>
     (\<exists>s1. apply_effect MakeStun b 1 s = Inr s1 \<and>
           apply_effect MakeSlow b 3 s1 = Inr (stun_slow b 0 0 (time s) s)) \<and>
     (time s mod 2 = 0 \<longrightarrow>
        bee_turns 2 (stun_slow b 0 0 (time s) s) b = Inr (stun_slow b 1 2 (time s + 2) s) \<and>
        Bee_action (stun_slow b 1 2 (time s + 2) s) b
          = Bee__action (stun_slow b 1 3 (time s + 2) s) b) \<and>
     (time s mod 2 = 1 \<longrightarrow>
        bee_turns 3 (stun_slow b 0 0 (time s) s) b = Inr (stun_slow b 1 3 (time s + 3) s)) \<and>
     (\<forall>t. Bee_action (stun_slow b 1 3 t s) b = Bee__action (stun_slow b 1 3 t s) b)"
proof -
  have e: "(time s + 1) mod 2 = 1" "(time s + 2) mod 2 = 0"
          "(1 + time s) mod 2 = 1" "(2 + time s) mod 2 = 0" if "time s mod 2 = 0"
    using that by presburger+
  have o: "(time s + 1) mod 2 = 0" "(time s + 2) mod 2 = 1"
          "(1 + time s) mod 2 = 0" "(2 + time s) mod 2 = 1" if "time s mod 2 = 1"
    using that by presburger+
  show ?thesis
    using stun_slow_apply[of s b]
    by (auto simp: numeral_2_eq_2 numeral_3_eq_3 Bee_action_stun_slow e o add.commute)
qed

text \<open>
  C4, as stated, fails: with both effects applied at time 1, the first turn is skipped
  by the slow and leaves the stun unused (counts 0 and 1); the stun is spent in the
  second turn and the slow skips the third, so the Bee stays in place 4 for three turns
  in a row (counts 1 and 3); it moves in the fourth and the fifth turn.
\<close>

theorem stun_then_slow_counterexample:
  "time stunned_slowed = 1 \<and> b_place (bee_of stunned_slowed 0) = Some 4 \<and>
   map c_count (b_effects (bee_of (returned (bee_turns 1 stunned_slowed 0)) 0)) = [0, 1] \<and>
   b_place (bee_of (returned (bee_turns 1 stunned_slowed 0)) 0) = Some 4 \<and>
   b_place (bee_of (returned (bee_turns 2 stunned_slowed 0)) 0) = Some 4 \<and>
   b_place (bee_of (returned (bee_turns 3 stunned_slowed 0)) 0) = Some 4 \<and>
   map c_count (b_effects (bee_of (returned (bee_turns 3 stunned_slowed 0)) 0)) = [1, 3] \<and>
   b_place (bee_of (returned (bee_turns 4 stunned_slowed 0)) 0) = Some 3 \<and>
   b_place (bee_of (returned (bee_turns 5 stunned_slowed 0)) 0) = Some 2"
  by code_simp

theorem stun_then_slow_witness:
  "b_class (bee_of invaded 0) = Bee \<and> b_effects (bee_of invaded 0) = [] \<and>
   time invaded mod 2 = 0 \<and>
   bee_turns 2 (stun_slow 0 0 0 (time invaded) invaded) 0 = Inr (stun_slow 0 1 2 2 invaded) \<and>
   time (invaded\<lparr>time := 1\<rparr>) mod 2 = 1 \<and>
   bee_turns 3 (stun_slow 0 0 0 1 invaded) 0 = Inr (stun_slow 0 1 3 4 invaded)"
proof -
  have h: "b_class (bee_of invaded 0) = Bee" "b_effects (bee_of invaded 0) = []" "time invaded = 0"
    by (simp_all add: invaded_def world_defs place_defs)
  have u: "stun_slow 0 0 0 (time (invaded\<lparr>time := 1\<rparr>)) (invaded\<lparr>time := 1\<rparr>) = stun_slow 0 0 0 1 invaded"
       "stun_slow 0 1 3 (time (invaded\<lparr>time := 1\<rparr>) + 3) (invaded\<lparr>time := 1\<rparr>) = stun_slow 0 1 3 4 invaded"
    by (simp_all add: stun_slow_def)
  from stun_then_slow[of invaded 0] stun_then_slow[of "invaded\<lparr>time := 1\<rparr>" 0] h u
  show ?thesis by simp
qed


subsection \<open>The target of a ThrowerAnt\<close>

lemma random_or_none_Nil [simp]: "random_or_none [] s = (None, s)"
  by (simp add: random_or_none_def random_choice_def)

lemma random_or_none_Cons:
  "l \<noteq> [] \<Longrightarrow> \<exists>t \<in> set l. random_or_none l s = (Some t, drawn s)"
  by (auto simp: random_or_none_def random_choice_def drawn_def split: list.splits)

lemma drawn_frame [simp]:
  "ant_of (drawn s) = ant_of s" "bee_of (drawn s) = bee_of s" "place_of (drawn s) = place_of s"
  "hive (drawn s) = hive s" "time (drawn s) = time s" "food (drawn s) = food s"
  by (simp_all add: drawn_def split: list.splits)

text \<open>The target that the loop returns is in range of the place and distance it started from.\<close>

lemma nearest_bee_loop_sound:
  "nearest_bee_loop n s a hv pl r = Some (Inr (Some t, s1)) \<Longrightarrow>
     s1 = drawn s \<and>
     (\<exists>j q. min_range (a_class (ant_of s a)) \<le> r + j \<and> r + j \<le> max_range (a_class (ant_of s a)) \<and>
            hop s pl j = Some q \<and> t \<in> set (p_bees (place_of s q)) \<and>
            (\<forall>k \<le> j. hop s pl k \<noteq> Some hv))"
proof (induction n arbitrary: pl r)
  case 0
  then show ?case by simp
next
  case (Suc n)
  from Suc.prems obtain p where p: "pl = Some p" "p \<noteq> hv"
    by (cases pl) (auto split: if_splits)
  let ?inr = "min_range (a_class (ant_of s a)) \<le> r \<and> r \<le> max_range (a_class (ant_of s a))"
  show ?case
  proof (cases "?inr \<and> p_bees (place_of s p) \<noteq> []")
    case True
    then obtain t' where t': "t' \<in> set (p_bees (place_of s p))"
      "random_or_none (p_bees (place_of s p)) s = (Some t', drawn s)"
      using random_or_none_Cons[of "p_bees (place_of s p)" s] by blast
    with Suc.prems p True have "t = t'" "s1 = drawn s" by auto
    with t' True p show ?thesis
      by (intro conjI exI[of _ 0] exI[of _ p]) auto
  next
    case False
    with Suc.prems p
    have "nearest_bee_loop n s a hv (p_entrance (place_of s p)) (r + 1) = Some (Inr (Some t, s1))"
      by (auto split: if_splits)
    from Suc.IH[OF this] obtain j q where
      j: "s1 = drawn s" "min_range (a_class (ant_of s a)) \<le> r + 1 + j"
         "r + 1 + j \<le> max_range (a_class (ant_of s a))"
         "hop s (p_entrance (place_of s p)) j = Some q" "t \<in> set (p_bees (place_of s q))"
         "\<forall>k \<le> j. hop s (p_entrance (place_of s p)) k \<noteq> Some hv"
      by blast
    have "\<forall>k \<le> Suc j. hop s pl k \<noteq> Some hv"
    proof (intro allI impI)
      fix k assume "k \<le> Suc j"
      then show "hop s pl k \<noteq> Some hv"
        using p j(6) by (cases k) auto
    qed
    with j p show ?thesis
      by (intro conjI exI[of _ "Suc j"] exI[of _ q]) auto
  qed
qed


text \<open>When every Invader in range is \<open>b0\<close>, and there is one, the loop returns \<open>b0\<close>.\<close>

lemma nearest_bee_loop_complete:
  assumes "hop s pl j = Some q" "b0 \<in> set (p_bees (place_of s q))"
    "min_range (a_class (ant_of s a)) \<le> r + j" "r + j \<le> max_range (a_class (ant_of s a))"
    "\<forall>k \<le> j. hop s pl k \<noteq> Some hv"
    "\<forall>i q' b. i \<le> j \<and> min_range (a_class (ant_of s a)) \<le> r + i \<and> hop s pl i = Some q' \<and>
               b \<in> set (p_bees (place_of s q')) \<longrightarrow> b = b0"
    "j < n"
  shows "nearest_bee_loop n s a hv pl r = Some (Inr (Some b0, drawn s))"
  using assms
proof (induction j arbitrary: pl r n)
  case 0
  then obtain m where n: "n = Suc m" by (cases n) auto
  from 0 have pl: "pl = Some q" "q \<noteq> hv" by auto
  from 0 have ne: "p_bees (place_of s q) \<noteq> []" by auto
  from random_or_none_Cons[OF ne, of s] obtain t where
    t: "t \<in> set (p_bees (place_of s q))" "random_or_none (p_bees (place_of s q)) s = (Some t, drawn s)"
    by blast
  from "0.prems"(3,6) t(1) pl have "t = b0" by auto
  moreover have "min_range (a_class (ant_of s a)) \<le> r \<and> r \<le> max_range (a_class (ant_of s a))"
    using "0.prems"(3,4) by simp
  ultimately show ?case using pl n t(2) by simp
next
  case (Suc j)
  then obtain m where n: "n = Suc m" "j < m" by (cases n) auto
  from Suc.prems(1) obtain p where p: "pl = Some p" "hop s (p_entrance (place_of s p)) j = Some q"
    by (cases pl) auto
  from Suc.prems(5) have "hop s pl 0 \<noteq> Some hv" by blast
  with p have nh: "p \<noteq> hv" by simp
  have later: "\<forall>k \<le> j. hop s (p_entrance (place_of s p)) k \<noteq> Some hv"
  proof (intro allI impI)
    fix k assume "k \<le> j"
    then have "Suc k \<le> Suc j" by simp
    with Suc.prems(5) have "hop s pl (Suc k) \<noteq> Some hv" by blast
    then show "hop s (p_entrance (place_of s p)) k \<noteq> Some hv" using p by simp
  qed
  have only: "\<forall>i q' b. i \<le> j \<and> min_range (a_class (ant_of s a)) \<le> r + 1 + i \<and>
                hop s (p_entrance (place_of s p)) i = Some q' \<and>
                b \<in> set (p_bees (place_of s q')) \<longrightarrow> b = b0"
  proof (intro allI impI)
    fix i q' b
    assume h: "i \<le> j \<and> min_range (a_class (ant_of s a)) \<le> r + 1 + i \<and>
                hop s (p_entrance (place_of s p)) i = Some q' \<and> b \<in> set (p_bees (place_of s q'))"
    then have "Suc i \<le> Suc j \<and> min_range (a_class (ant_of s a)) \<le> r + Suc i \<and>
               hop s pl (Suc i) = Some q' \<and> b \<in> set (p_bees (place_of s q'))"
      using p by simp
    with Suc.prems(6) show "b = b0" by blast
  qed
  have rec: "nearest_bee_loop m s a hv (p_entrance (place_of s p)) (r + 1) = Some (Inr (Some b0, drawn s))"
    using Suc.IH[OF p(2) Suc.prems(2) _ _ later _ n(2), of "r + 1"] Suc.prems(3,4) only
    by simp
  show ?case
  proof (cases "min_range (a_class (ant_of s a)) \<le> r \<and> r \<le> max_range (a_class (ant_of s a))
                \<and> p_bees (place_of s p) \<noteq> []")
    case True
    then obtain t where
      t: "t \<in> set (p_bees (place_of s p))" "random_or_none (p_bees (place_of s p)) s = (Some t, drawn s)"
      using random_or_none_Cons[of "p_bees (place_of s p)" s] by blast
    have "0 \<le> Suc j \<and> min_range (a_class (ant_of s a)) \<le> r + 0 \<and> hop s pl 0 = Some p \<and>
          t \<in> set (p_bees (place_of s p))"
      using t(1) p(1) True by simp
    with Suc.prems(6) have "t = b0" by blast
    then show ?thesis using True p(1) nh t(2) n(1) by simp
  next
    case False
    then have "random_or_none (p_bees (place_of s p)) s = (None, s) \<or>
               \<not> (min_range (a_class (ant_of s a)) \<le> r \<and> r \<le> max_range (a_class (ant_of s a)))"
      by auto
    then show ?thesis using p(1) nh n(1) rec by auto
  qed
qed


lemma nearest_bee_loop_frame:
  "nearest_bee_loop n s a hv pl r = Some (Inr (tgt, s1)) \<Longrightarrow>
     bee_of s1 = bee_of s \<and> ant_of s1 = ant_of s \<and> place_of s1 = place_of s"
proof (induction n arbitrary: pl r)
  case 0
  then show ?case by simp
next
  case (Suc n)
  show ?case
  proof (cases tgt)
    case (Some t)
    with Suc.prems nearest_bee_loop_sound[of "Suc n" s a hv pl r t s1] show ?thesis by simp
  next
    case None
    show ?thesis
    proof (cases "pl = Some hv")
      case True
      with Suc.prems show ?thesis by simp
    next
      case False
      with Suc.prems obtain p where p: "pl = Some p" by (cases pl) auto
      have "random_or_none (p_bees (place_of s p)) s = (None, s) \<or>
            (\<exists>t. random_or_none (p_bees (place_of s p)) s = (Some t, drawn s))"
        using random_or_none_Cons[of "p_bees (place_of s p)" s]
        by (cases "p_bees (place_of s p) = []") auto
      with Suc.prems False p None
      have "nearest_bee_loop n s a hv (p_entrance (place_of s p)) (r + 1) = Some (Inr (tgt, s1))"
        by (auto split: if_splits)
      then show ?thesis by (rule Suc.IH)
    qed
  qed
qed

lemma throw_at_others:
  "throw_at s a tgt = Inr s' \<Longrightarrow> Some b \<noteq> tgt \<Longrightarrow> b_armor (bee_of s' b) = b_armor (bee_of s b)"
  by (auto simp: throw_at_def ThrowerAnt_throw_at_def SlowThrower_throw_at_def
                 StunThrower_throw_at_def apply_effect_def reduce_armor_def
                 Insect_reduce_armor_def Let_def Place_remove_insect_def
           split: option.splits if_splits)

lemma ThrowerAnt_action_in_range:
  assumes "ThrowerAnt_action n s a = Some (Inr s')" "b_armor (bee_of s' b) \<noteq> b_armor (bee_of s b)"
  shows "within_range s a (hive s) b"
proof -
  from assms(1) obtain tgt s1 where
    1: "nearest_bee_loop n s a (hive s) (a_place (ant_of s a)) 0 = Some (Inr (tgt, s1))"
       "throw_at s1 a tgt = Inr s'"
    by (auto simp: ThrowerAnt_action_def nearest_bee_def split: option.splits sum.splits)
  from nearest_bee_loop_frame[OF 1(1)] have fr: "bee_of s1 = bee_of s" by simp
  with throw_at_others[OF 1(2), of b] assms(2) have "tgt = Some b" by auto
  with nearest_bee_loop_sound[of n s a "hive s" "a_place (ant_of s a)" 0 b s1] 1(1)
  obtain j q where
    j: "min_range (a_class (ant_of s a)) \<le> j" "j \<le> max_range (a_class (ant_of s a))"
       "hop s (a_place (ant_of s a)) j = Some q" "b \<in> set (p_bees (place_of s q))"
       "\<forall>k \<le> j. hop s (a_place (ant_of s a)) k \<noteq> Some (hive s)"
    by auto
  then show ?thesis
    unfolding within_range_def at_distance_def before_hive_def
    by (intro bexI[of _ j]) auto
qed

lemma nearest_bee_only:
  assumes "\<forall>b. within_range s a hv b \<longleftrightarrow> b = b0" "max_range (a_class (ant_of s a)) < n"
  shows "nearest_bee n s a hv = Some (Inr (Some b0, drawn s))"
proof -
  from assms(1) have "within_range s a hv b0" by simp
  then obtain j q where
    j: "min_range (a_class (ant_of s a)) \<le> j" "j \<le> max_range (a_class (ant_of s a))"
       "hop s (a_place (ant_of s a)) j = Some q" "b0 \<in> set (p_bees (place_of s q))"
       "\<forall>k \<le> j. hop s (a_place (ant_of s a)) k \<noteq> Some hv"
    by (auto simp: within_range_def at_distance_def before_hive_def split: option.splits)
  have only: "\<forall>i q' b. i \<le> j \<and> min_range (a_class (ant_of s a)) \<le> 0 + i \<and>
                hop s (a_place (ant_of s a)) i = Some q' \<and> b \<in> set (p_bees (place_of s q'))
                \<longrightarrow> b = b0"
  proof (intro allI impI)
    fix i q' b
    assume h: "i \<le> j \<and> min_range (a_class (ant_of s a)) \<le> 0 + i \<and>
                hop s (a_place (ant_of s a)) i = Some q' \<and> b \<in> set (p_bees (place_of s q'))"
    with j have "within_range s a hv b"
      unfolding within_range_def at_distance_def before_hive_def
      by (intro bexI[of _ i]) auto
    with assms(1) show "b = b0" by simp
  qed
  from j(2) assms(2) have "j < n" by simp
  from nearest_bee_loop_complete[OF j(3,4) _ _ j(5) only this] j(1,2)
  show ?thesis by (simp add: nearest_bee_def)
qed

text \<open>
  C5 (as amended).  When \<open>ThrowerAnt.action\<close> returns, every Invader whose armor it has
  changed was within range: in a Place at a hop distance between \<open>min_range\<close> and
  \<open>max_range\<close> from the Ant's Place, with the Hive not among the Places up to that one.
  When exactly one Invader \<open>b0\<close> is within range in this sense and the loop may run more
  than \<open>max_range\<close> times, \<open>nearest_bee\<close> returns \<open>b0\<close> whatever the random source gives,
  and the action throws at \<open>b0\<close>: for the classes that keep \<open>ThrowerAnt.throw_at\<close>, it is
  \<open>reduce_armor(damage)\<close> on \<open>b0\<close>.
\<close>

theorem ranged_attack:
  "(ThrowerAnt_action n s a = Some (Inr s') \<and> b_armor (bee_of s' b) \<noteq> b_armor (bee_of s b)
      \<longrightarrow> within_range s a (hive s) b) \<and>
   ((\<forall>x. within_range s a (hive s) x \<longleftrightarrow> x = b0) \<and> max_range (a_class (ant_of s a)) < n
      \<longrightarrow> nearest_bee n s a (hive s) = Some (Inr (Some b0, drawn s)) \<and>
          ThrowerAnt_action n s a = Some (throw_at (drawn s) a (Some b0)) \<and>
          (a_class (ant_of s a) \<noteq> SlowThrower \<and> a_class (ant_of s a) \<noteq> StunThrower \<longrightarrow>
             ThrowerAnt_action n s a
               = Some (reduce_armor (drawn s) (BeeRef b0) (a_damage (ant_of s a)))))"
proof -
  have "ThrowerAnt_action n s a = Some (throw_at (drawn s) a (Some b0))"
    if "nearest_bee n s a (hive s) = Some (Inr (Some b0, drawn s))"
    using that by (simp add: ThrowerAnt_action_def)
  moreover have "throw_at (drawn s) a (Some b0) = reduce_armor (drawn s) (BeeRef b0) (a_damage (ant_of s a))"
    if "a_class (ant_of s a) \<noteq> SlowThrower \<and> a_class (ant_of s a) \<noteq> StunThrower"
    using that by (simp add: throw_at_def ThrowerAnt_throw_at_def)
  ultimately show ?thesis
    using ThrowerAnt_action_in_range[of n s a s' b] nearest_bee_only[of s a "hive s" b0 n]
    by auto
qed


lemma defended_facts:
  "a_place (ant_of defended 0) = Some 2" "a_class (ant_of defended 0) = ThrowerAnt"
  "hive defended = 1" "a_damage (ant_of defended 0) = 1"
  "hop defended (Some 2) 0 = Some 2" "hop defended (Some 2) 1 = Some 3"
  "hop defended (Some 2) 2 = Some 4" "hop defended (Some 2) 3 = Some 1"
  "p_bees (place_of defended 2) = []" "p_bees (place_of defended 3) = []"
  "p_bees (place_of defended 4) = [0]"
  "before_hive defended 0 1 2"
  "hop defended (Some 2) (Suc 0) = Some 3"
  by code_simp+

lemma defended_only: "within_range defended 0 (hive defended) x \<longleftrightarrow> x = 0"
proof
  assume "within_range defended 0 (hive defended) x"
  then obtain r where r: "at_distance defended 0 x r" "before_hive defended 0 1 r"
    by (auto simp: within_range_def defended_facts)
  have "r < 3"
  proof (rule ccontr)
    assume "\<not> r < 3"
    then have "3 \<in> {0 .. r}" by simp
    with r(2) have "hop defended (Some 2) 3 \<noteq> Some 1"
      unfolding before_hive_def defended_facts(1) by blast
    with defended_facts(8) show False by simp
  qed
  then have "r = 0 \<or> r = 1 \<or> r = 2" by auto
  with r(1) show "x = 0"
    unfolding at_distance_def by (auto simp: defended_facts simp del: hop.simps)
next
  assume "x = 0"
  then have "at_distance defended 0 x 2 \<and> before_hive defended 0 1 2"
    by (simp add: at_distance_def defended_facts del: One_nat_def)
  then show "within_range defended 0 (hive defended) x"
    unfolding within_range_def defended_facts
    by (intro bexI[of _ 2]) auto
qed

lemma defended_hit:
  "b_armor (bee_of defended 0) = 3"
  "\<not> isl (reduce_armor (drawn defended) (BeeRef 0) 1)"
  "b_armor (bee_of (returned (reduce_armor (drawn defended) (BeeRef 0) 1)) 0) = 2"
  by code_simp+



lemma besieged_facts:
  "hive besieged = 1" "colony_bees besieged = [0]"
  "a_class (ant_of besieged 0) = ThrowerAnt" "a_place (ant_of besieged 0) = Some 4"
  "hop besieged (Some 4) 1 = Some 1" "p_bees (place_of besieged 1) = [0]"
  "p_bees (place_of besieged 4) = []" "p_entrance (place_of besieged 4) = Some 1"
  "at_distance besieged 0 0 1"
  by code_simp+

lemma besieged_loop:
  "nearest_bee_loop (Suc (Suc n)) besieged 0 1 (Some 4) 0 = Some (Inr (None, besieged))"
  by (simp add: besieged_facts)

text \<open>
  C5, as stated, fails for an Invader in the Hive: the only Bee of the colony is in the
  Hive, one hop from the ThrowerAnt of place 4 (range 0 to 10), and the action changes
  nothing.
\<close>

theorem ranged_attack_counterexample:
  "hive besieged = 1 \<and> colony_bees besieged = [0] \<and>
   a_class (ant_of besieged 0) = ThrowerAnt \<and> a_place (ant_of besieged 0) = Some 4 \<and>
   hop besieged (Some 4) 1 = Some 1 \<and> p_bees (place_of besieged 1) = [0] \<and>
   at_distance besieged 0 0 1 \<and>
   min_range (a_class (ant_of besieged 0)) \<le> 1 \<and> 1 \<le> max_range (a_class (ant_of besieged 0)) \<and>
   ThrowerAnt_action 11 besieged 0 = Some (Inr besieged)"
proof -
  have "(11::nat) = Suc (Suc 9)" by simp
  then have "nearest_bee_loop 11 besieged 0 1 (Some 4) 0 = Some (Inr (None, besieged))"
    using besieged_loop[of 9] by (simp only:)
  then have "ThrowerAnt_action 11 besieged 0 = Some (Inr besieged)"
    by (simp add: ThrowerAnt_action_def nearest_bee_def throw_at_def ThrowerAnt_throw_at_def
          besieged_facts)
  moreover have "min_range (a_class (ant_of besieged 0)) \<le> 1"
    "1 \<le> max_range (a_class (ant_of besieged 0))"
    by (simp_all add: besieged_facts(3))
  ultimately show ?thesis using besieged_facts by blast
qed


theorem ranged_attack_witness:
  "max_range (a_class (ant_of defended 0)) < 11 \<and>
   within_range defended 0 (hive defended) 0 \<and>
   a_class (ant_of defended 0) = ThrowerAnt \<and>
   ThrowerAnt_action 11 defended 0 = Some (reduce_armor (drawn defended) (BeeRef 0) 1) \<and>
   b_armor (bee_of defended 0) = 3 \<and>
   b_armor (bee_of (returned (reduce_armor (drawn defended) (BeeRef 0) 1)) 0) = 2"
proof -
  have 1: "\<forall>x. within_range defended 0 (hive defended) x \<longleftrightarrow> x = 0"
    using defended_only by blast
  have 2: "max_range (a_class (ant_of defended 0)) < 11" by (simp add: defended_facts(2))
  have 3: "a_class (ant_of defended 0) \<noteq> SlowThrower \<and> a_class (ant_of defended 0) \<noteq> StunThrower"
    by (simp add: defended_facts(2))
  from ranged_attack[of 11 defended 0 _ _ 0] 1 2 3
  have "ThrowerAnt_action 11 defended 0
          = Some (reduce_armor (drawn defended) (BeeRef 0) (a_damage (ant_of defended 0)))"
    by blast
  then have 4: "ThrowerAnt_action 11 defended 0 = Some (reduce_armor (drawn defended) (BeeRef 0) 1)"
    by (simp only: defended_facts(4))
  obtain s' where s': "reduce_armor (drawn defended) (BeeRef 0) 1 = Inr s'"
    using defended_hit(2) by (cases "reduce_armor (drawn defended) (BeeRef 0) 1") auto
  with defended_hit(3) have "b_armor (bee_of s' 0) = 2" by simp
  with defended_hit(1) have 5: "b_armor (bee_of s' 0) \<noteq> b_armor (bee_of defended 0)" by simp
  from 4 s' have 6: "ThrowerAnt_action 11 defended 0 = Some (Inr s')" by simp
  from ranged_attack[of 11 defended 0 s' 0 0] 5 6
  have "within_range defended 0 (hive defended) 0" by blast
  with 2 4 defended_hit defended_facts(2) show ?thesis by blast
qed


subsection \<open>Deployment and the scheduler\<close>











lemma colony0_facts:
  "map_of (ant_types colony0) ''Thrower'' = Some ThrowerAnt"
  "map_of (ant_types colony0) ''Harvester'' = Some HarvesterAnt"
  "map_of (places colony0) ''tunnel_0_0'' = Some 2"
  "food colony0 = 2" "next_ant colony0 = 0" "time colony0 = 0"
  "p_class (place_of colony0 2) = Place" "p_ant (place_of colony0 2) = None"
  "colony_bees colony0 = []" "queen_bees colony0 (queen colony0) = []" "colony_ants colony0 = []"
  by code_simp+



lemma simulate_no_bees:
  "colony_bees s = [] \<Longrightarrow> queen_bees s (queen s) = [] \<Longrightarrow>
     simulate (Suc n) strategy s = Some (Inr (print YouWin s))"
  by simp

text \<open>
  C6 (as amended).  When no Bee is in any registered Place nor in the queen's Place, as
  with an empty plan, \<open>simulate\<close> ends at its first check: it prints the win and returns
  the colony as it was, without a turn and without calling the strategy, so no
  HarvesterAnt is deployed and the food stays as it was.  Were the loop body run all the
  same in the small colony, with the strategy that deploys a HarvesterAnt in the first
  turn: the food is 0 after the deployment, and 1, 2, 3, 4, 5 after one to five turns.
\<close>

theorem empty_plan:
  "(colony_bees s = [] \<and> queen_bees s (queen s) = [] \<longrightarrow>
      simulate (Suc n) strategy s = Some (Inr (print YouWin s))) \<and>
   food (returned (harvester_strategy colony0)) = 0 \<and>
   map (\<lambda>k. food (finished (turns k 1 harvester_strategy colony0))) [1, 2, 3, 4, 5]
     = [1, 2, 3, 4, 5] \<and>
   time (finished (turns 5 1 harvester_strategy colony0)) = 5"
proof -
  have "food (returned (harvester_strategy colony0)) = 0"
    "map (\<lambda>k. food (finished (turns k 1 harvester_strategy colony0))) [1, 2, 3, 4, 5]
       = [1, 2, 3, 4, 5]"
    "time (finished (turns 5 1 harvester_strategy colony0)) = 5"
    by code_simp+
  then show ?thesis using simulate_no_bees[of s n strategy] by blast
qed

theorem empty_plan_witness:
  "colony_bees colony0 = [] \<and> queen_bees colony0 (queen colony0) = [] \<and>
   simulate 100 harvester_strategy colony0 = Some (Inr (print YouWin colony0)) \<and>
   time (print YouWin colony0) = 0 \<and> food (print YouWin colony0) = 2 \<and>
   colony_ants (print YouWin colony0) = []"
proof -
  have "(100::nat) = Suc 99" by simp
  with empty_plan[of colony0 99 harvester_strategy] colony0_facts
  have "simulate 100 harvester_strategy colony0 = Some (Inr (print YouWin colony0))"
    by (simp only:)
  moreover have "colony_ants (print YouWin colony0) = []"
    using colony0_facts(11) by (simp add: colony_ants_def)
  ultimately show ?thesis using colony0_facts by simp
qed

text \<open>
  C6, as stated, fails: in the small colony with the empty plan, 2 food and the strategy
  that deploys a HarvesterAnt in the first turn, \<open>simulate\<close> returns at time 0 with the
  win printed, the food still 2 and no Ant in the colony.
\<close>

theorem empty_plan_counterexample:
  "has_returned (simulate 100 harvester_strategy colony0) \<and>
   time (finished (simulate 100 harvester_strategy colony0)) = 0 \<and>
   food (finished (simulate 100 harvester_strategy colony0)) = 2 \<and>
   colony_ants (finished (simulate 100 harvester_strategy colony0)) = [] \<and>
   stdout (finished (simulate 100 harvester_strategy colony0)) = [YouWin]"
  by code_simp


subsection \<open>The queen doubles the damage\<close>

lemma same_paths_refl [simp]: "same_paths s s"
  by (simp add: same_paths_def)

lemma same_paths_trans: "same_paths s s1 \<Longrightarrow> same_paths s1 s2 \<Longrightarrow> same_paths s s2"
  by (simp add: same_paths_def)

lemma same_paths_buffed_at: "same_paths s s' \<Longrightarrow> buffed_at s' p = buffed_at s p"
  by (auto simp: same_paths_def buffed_at_def contained_ant_def split: option.splits)

lemma same_paths_chain:
  "same_paths s s' \<Longrightarrow> field = p_exit \<or> field = p_entrance \<Longrightarrow>
     chain n field s' pl = chain n field s pl"
  by (induction n arbitrary: pl) (auto simp: same_paths_def split: option.splits)

lemma same_paths_ended:
  "same_paths s s' \<Longrightarrow> field = p_exit \<or> field = p_entrance \<Longrightarrow>
     ended n field s' pl = ended n field s pl"
  by (induction n arbitrary: pl) (auto simp: same_paths_def split: option.splits)

lemma doubled_idem [simp]: "doubled (doubled x) = doubled x"
  by (simp add: doubled_def)

lemma doubled_fields [simp]:
  "a_class (doubled x) = a_class x" "a_ant (doubled x) = a_ant x"
  "a_is_true_queen (doubled x) = a_is_true_queen x" "a_place (doubled x) = a_place x"
  "a_armor (doubled x) = a_armor x"
  by (simp_all add: doubled_def)

lemma double_damage_ant: "ant_of (double_damage s a) = (ant_of s)(a := doubled (ant_of s a))"
  by (simp add: double_damage_def doubled_def)

lemma double_damage_place [simp]: "place_of (double_damage s a) = place_of s"
  by (simp add: double_damage_def)

lemma double_place_damage_ant:
  "ant_of (double_place_damage s p) a =
     (if a \<in> set (buffed_at s p) then doubled (ant_of s a) else ant_of s a)"
  by (auto simp: double_place_damage_def buffed_at_def Let_def double_damage_ant contained_ant_def
           split: option.splits)

lemma double_place_damage_place [simp]: "place_of (double_place_damage s p) = place_of s"
  by (simp add: double_place_damage_def Let_def split: option.splits)

lemma double_place_damage_paths: "same_paths s (double_place_damage s p)"
  by (simp add: same_paths_def double_place_damage_ant)


lemma double_loop_result:
  assumes "field = p_exit \<or> field = p_entrance"
  shows "double_loop n field s pl = Some s' \<Longrightarrow>
           ended n field s pl \<and> same_paths s s' \<and>
           (\<forall>a. ant_of s' a =
                  (if a \<in> set (concat (map (buffed_at s) (chain n field s pl)))
                   then doubled (ant_of s a) else ant_of s a))"
proof (induction n arbitrary: s pl)
  case 0
  then show ?case by simp
next
  case (Suc n)
  show ?case
  proof (cases pl)
    case None
    with Suc.prems show ?thesis by simp
  next
    case (Some p)
    let ?s1 = "double_place_damage s p"
    have sp: "same_paths s ?s1" by (rule double_place_damage_paths)
    from Suc.prems Some
    have "double_loop n field ?s1 (field (place_of s p)) = Some s'"
      by (simp add: Let_def)
    from Suc.IH[OF this] have
      ih: "ended n field ?s1 (field (place_of s p))" "same_paths ?s1 s'"
          "\<forall>a. ant_of s' a =
                 (if a \<in> set (concat (map (buffed_at ?s1) (chain n field ?s1 (field (place_of s p)))))
                  then doubled (ant_of ?s1 a) else ant_of ?s1 a)"
      by blast+
    have e: "ended (Suc n) field s pl"
      using ih(1) Some same_paths_ended[OF sp assms] by simp
    have c: "chain n field ?s1 (field (place_of s p)) = chain n field s (field (place_of s p))"
      by (rule same_paths_chain[OF sp assms])
    have b: "map (buffed_at ?s1) xs = map (buffed_at s) xs" for xs
      by (simp add: same_paths_buffed_at[OF sp])
    have "ant_of s' a =
            (if a \<in> set (concat (map (buffed_at s) (chain (Suc n) field s pl)))
             then doubled (ant_of s a) else ant_of s a)" for a
      using ih(3) Some by (simp add: c b double_place_damage_ant)
    with e same_paths_trans[OF sp ih(2)] show ?thesis by blast
  qed
qed

lemma double_loop_returns:
  "ended n field s pl \<Longrightarrow> field = p_exit \<or> field = p_entrance \<Longrightarrow>
     \<exists>s'. double_loop n field s pl = Some s'"
proof (induction n arbitrary: s pl)
  case 0
  then show ?case by simp
next
  case (Suc n)
  show ?case
  proof (cases pl)
    case None
    then show ?thesis by simp
  next
    case (Some p)
    have "ended n field (double_place_damage s p) (field (place_of s p))"
      using Suc.prems Some same_paths_ended[OF double_place_damage_paths Suc.prems(2), of n s p]
      by simp
    from Suc.IH[OF this Suc.prems(2)] Some show ?thesis by (simp add: Let_def)
  qed
qed


lemma throw_at_paths: "throw_at s a tgt = Inr s' \<Longrightarrow> same_paths s s' \<and> ant_of s' = ant_of s"
  by (auto simp: throw_at_def ThrowerAnt_throw_at_def SlowThrower_throw_at_def
                 StunThrower_throw_at_def apply_effect_def reduce_armor_def
                 Insect_reduce_armor_def Let_def Place_remove_insect_def same_paths_def
           split: option.splits if_splits)

lemma ThrowerAnt_action_paths:
  assumes "ThrowerAnt_action n s a = Some (Inr s')"
  shows "same_paths s s' \<and> ant_of s' = ant_of s"
proof -
  from assms obtain tgt s1 where
    1: "nearest_bee_loop n s a (hive s) (a_place (ant_of s a)) 0 = Some (Inr (tgt, s1))"
       "throw_at s1 a tgt = Inr s'"
    by (auto simp: ThrowerAnt_action_def nearest_bee_def split: option.splits sum.splits)
  from nearest_bee_loop_frame[OF 1(1)] have "same_paths s s1" "ant_of s1 = ant_of s"
    by (simp_all add: same_paths_def)
  with throw_at_paths[OF 1(2)] show ?thesis by (auto intro: same_paths_trans)
qed

lemma QueenAnt_action_result:
  assumes "a_is_true_queen (ant_of s q)" "QueenAnt_action n s q = Some (Inr s')"
  shows "(\<exists>own. a_place (ant_of s q) = Some own \<and> ended n p_exit s (Some own) \<and>
                ended n p_entrance s (p_entrance (place_of s own))) \<and>
         (\<forall>a. ant_of s' a = (if a \<in> set (buffed n s q) then doubled (ant_of s a) else ant_of s a))"
proof -
  from assms obtain own where own: "a_place (ant_of s q) = Some own"
    by (cases "a_place (ant_of s q)") (auto simp: QueenAnt_action_def)
  define c1 where "c1 = (case queen s of PlaceRef r \<Rightarrow> s\<lparr>queen := QueenPlace r own\<rparr>
                                       | QueenPlace c a \<Rightarrow> s)"
  have p1: "same_paths s c1" "ant_of c1 = ant_of s"
    by (simp_all add: c1_def same_paths_def split: queen_ref.splits)
  from assms own obtain c2 c3 p where
    2: "ThrowerAnt_action n c1 q = Some (Inr c2)" and
    3: "double_loop n p_exit c2 (a_place (ant_of c2 q)) = Some c3" and
    4: "a_place (ant_of c3 q) = Some p" and
    5: "double_loop n p_entrance c3 (p_entrance (place_of c3 p)) = Some s'"
    by (auto simp: QueenAnt_action_def Let_def c1_def split: option.splits sum.splits)
  from ThrowerAnt_action_paths[OF 2] p1
  have p2: "same_paths s c2" "ant_of c2 = ant_of s"
    by (auto intro: same_paths_trans)
  from double_loop_result[OF _ 3]
  have r3: "ended n p_exit c2 (a_place (ant_of c2 q))" "same_paths c2 c3"
    "\<forall>a. ant_of c3 a =
        (if a \<in> set (concat (map (buffed_at c2) (chain n p_exit c2 (a_place (ant_of c2 q)))))
         then doubled (ant_of c2 a) else ant_of c2 a)"
    by simp_all
  have p3: "same_paths s c3" using p2(1) r3(2) by (rule same_paths_trans)
  from double_loop_result[OF _ 5]
  have r5: "ended n p_entrance c3 (p_entrance (place_of c3 p))" "same_paths c3 s'"
    "\<forall>a. ant_of s' a =
        (if a \<in> set (concat (map (buffed_at c3) (chain n p_entrance c3 (p_entrance (place_of c3 p)))))
         then doubled (ant_of c3 a) else ant_of c3 a)"
    by simp_all
  have pl2: "a_place (ant_of c2 q) = Some own" using p2(2) own by simp
  have pl3: "p = own" using 4 p3 own by (simp add: same_paths_def)
  have en: "p_entrance (place_of c3 p) = p_entrance (place_of s own)"
    using p3 pl3 by (simp add: same_paths_def)
  have b2: "map (buffed_at c2) xs = map (buffed_at s) xs" for xs
    by (simp add: same_paths_buffed_at[OF p2(1)])
  have b3: "map (buffed_at c3) xs = map (buffed_at s) xs" for xs
    by (simp add: same_paths_buffed_at[OF p3])
  have ch2: "chain n p_exit c2 (Some own) = chain n p_exit s (Some own)"
    by (rule same_paths_chain[OF p2(1)]) simp
  have ch3: "chain n p_entrance c3 (p_entrance (place_of s own))
               = chain n p_entrance s (p_entrance (place_of s own))"
    by (rule same_paths_chain[OF p3]) simp
  have e1: "ended n p_exit s (Some own)"
    using r3(1) pl2 same_paths_ended[OF p2(1), of p_exit n "Some own"] by simp
  have e2: "ended n p_entrance s (p_entrance (place_of s own))"
    using r5(1) en same_paths_ended[OF p3, of p_entrance n "p_entrance (place_of s own)"] by simp
  have "ant_of s' a = (if a \<in> set (buffed n s q) then doubled (ant_of s a) else ant_of s a)" for a
    using r5(3) r3(3)
    by (simp add: buffed_def queen_path_def own pl2 en b2 b3 ch2 ch3 p2(2))
  with own e1 e2 show ?thesis by blast
qed


lemma QueenAnt_action_returns:
  assumes "a_is_true_queen (ant_of s q)" "a_place (ant_of s q) = Some own"
    "ThrowerAnt_action n (case queen s of PlaceRef r \<Rightarrow> s\<lparr>queen := QueenPlace r own\<rparr>
                                       | QueenPlace c a \<Rightarrow> s) q = Some (Inr c2)"
    "ended n p_exit s (Some own)" "ended n p_entrance s (p_entrance (place_of s own))"
  shows "\<exists>s'. QueenAnt_action n s q = Some (Inr s')"
proof -
  define c1 where "c1 = (case queen s of PlaceRef r \<Rightarrow> s\<lparr>queen := QueenPlace r own\<rparr>
                                       | QueenPlace c a \<Rightarrow> s)"
  have p1: "same_paths s c1" "ant_of c1 = ant_of s"
    by (simp_all add: c1_def same_paths_def split: queen_ref.splits)
  from assms(3) have 2: "ThrowerAnt_action n c1 q = Some (Inr c2)" by (simp add: c1_def)
  from ThrowerAnt_action_paths[OF 2] p1
  have p2: "same_paths s c2" "ant_of c2 = ant_of s"
    by (auto intro: same_paths_trans)
  have "ended n p_exit c2 (Some own)"
    using assms(4) same_paths_ended[OF p2(1), of p_exit n "Some own"] by simp
  from double_loop_returns[OF this] obtain c3 where
    3: "double_loop n p_exit c2 (Some own) = Some c3" by auto
  from double_loop_result[OF _ 3] have "same_paths c2 c3" by simp
  with p2(1) have p3: "same_paths s c3" by (rule same_paths_trans)
  then have pl3: "a_place (ant_of c3 q) = Some own"
    "p_entrance (place_of c3 own) = p_entrance (place_of s own)"
    using assms(2) by (simp_all add: same_paths_def)
  have "ended n p_entrance c3 (p_entrance (place_of s own))"
    using assms(5) same_paths_ended[OF p3, of p_entrance n "p_entrance (place_of s own)"] by simp
  from double_loop_returns[OF this] obtain c4 where
    "double_loop n p_entrance c3 (p_entrance (place_of s own)) = Some c4" by auto
  with assms(1,2) 2 3 pl3 p2(2) show ?thesis
    by (simp add: QueenAnt_action_def Let_def c1_def[symmetric])
qed

lemma queen_actions_result:
  "a_is_true_queen (ant_of s q) \<Longrightarrow> queen_actions k n s q = Some (Inr s') \<Longrightarrow>
     a_is_true_queen (ant_of s' q) \<and>
     (\<forall>a. ant_of s' a = ant_of s a \<or> ant_of s' a = doubled (ant_of s a))"
proof (induction k arbitrary: s)
  case 0
  then show ?case by simp
next
  case (Suc k)
  from Suc.prems(2) obtain s1 where
    1: "QueenAnt_action n s q = Some (Inr s1)" "queen_actions k n s1 q = Some (Inr s')"
    by (auto split: option.splits sum.splits)
  from QueenAnt_action_result[OF Suc.prems(1) 1(1)]
  have r: "\<forall>a. ant_of s1 a = ant_of s a \<or> ant_of s1 a = doubled (ant_of s a)"
    by auto
  then have "a_is_true_queen (ant_of s1 q)"
    using Suc.prems(1) by (metis doubled_fields(3))
  from Suc.IH[OF this 1(2)]
  have ih: "a_is_true_queen (ant_of s' q)"
    "\<forall>a. ant_of s' a = ant_of s1 a \<or> ant_of s' a = doubled (ant_of s1 a)"
    by blast+
  have "ant_of s' a = ant_of s a \<or> ant_of s' a = doubled (ant_of s a)" for a
    using r ih(2) by (metis doubled_idem)
  with ih(1) show ?case by blast
qed

lemma doubled_damage:
  "a_damage (doubled x) = a_damage x \<or>
   (\<not> a_damage_doubled x \<and> a_damage (doubled x) = 2 * a_damage x)"
  by (simp add: doubled_def)

lemma damage_ok_doubled:
  assumes "damage_ok s" "\<forall>a. ant_of s' a = ant_of s a \<or> ant_of s' a = doubled (ant_of s a)"
  shows "damage_ok s'"
  unfolding damage_ok_def
proof
  fix a
  from assms(1) have "a_damage (ant_of s a) =
            (if a_damage_doubled (ant_of s a) then 2 * damage_class (a_class (ant_of s a))
             else damage_class (a_class (ant_of s a)))"
    by (simp add: damage_ok_def)
  moreover from assms(2) have "ant_of s' a = ant_of s a \<or> ant_of s' a = doubled (ant_of s a)"
    by blast
  ultimately show "a_damage (ant_of s' a) =
            (if a_damage_doubled (ant_of s' a) then 2 * damage_class (a_class (ant_of s' a))
             else damage_class (a_class (ant_of s' a)))"
    by (cases "a_damage_doubled (ant_of s a)") (auto simp: doubled_def)
qed

lemma damage_class_nonneg: "0 \<le> damage_class c"
  by (cases c) simp_all

lemma damage_ok_bound: "damage_ok s \<Longrightarrow> a_damage (ant_of s a) \<le> 2 * damage_class (a_class (ant_of s a))"
  using damage_class_nonneg[of "a_class (ant_of s a)"]
  by (auto simp: damage_ok_def)

text \<open>
  C8 (as amended).  When the action of the true queen returns, her Place has an exit
  chain and an entrance chain that end, and every Ant reached on them (the Ant in the
  slot of each Place of the path and the Ant it contains, except the true queen herself
  and whatever shares a slot she occupies) is as after \<open>double_damage\<close>, every other Ant
  as before.  The action returns when the throw returns and the two chains end within
  the iterations allowed.  After any number of her actions, the damage of each Ant is
  what it was, or twice that if its flag was not set; and if every damage was the class
  value or its double according to the flag, it still is, so no damage exceeds twice the
  class value.
\<close>

theorem queen_doubles:
  "a_is_true_queen (ant_of s q) \<longrightarrow>
     (QueenAnt_action n s q = Some (Inr s') \<longrightarrow>
        (\<exists>own. a_place (ant_of s q) = Some own \<and> ended n p_exit s (Some own) \<and>
               ended n p_entrance s (p_entrance (place_of s own))) \<and>
        (\<forall>a. ant_of s' a =
               (if a \<in> set (buffed n s q) then doubled (ant_of s a) else ant_of s a))) \<and>
     (a_place (ant_of s q) = Some own \<and>
      ThrowerAnt_action n (case queen s of PlaceRef r \<Rightarrow> s\<lparr>queen := QueenPlace r own\<rparr>
                                         | QueenPlace c a \<Rightarrow> s) q = Some (Inr c2) \<and>
      ended n p_exit s (Some own) \<and> ended n p_entrance s (p_entrance (place_of s own)) \<longrightarrow>
        (\<exists>s1. QueenAnt_action n s q = Some (Inr s1))) \<and>
     (queen_actions k n s q = Some (Inr s2) \<longrightarrow>
        (\<forall>a. a_damage (ant_of s2 a) = a_damage (ant_of s a) \<or>
             (\<not> a_damage_doubled (ant_of s a) \<and> a_damage (ant_of s2 a) = 2 * a_damage (ant_of s a))) \<and>
        (damage_ok s \<longrightarrow>
           damage_ok s2 \<and>
           (\<forall>a. a_damage (ant_of s2 a) \<le> 2 * damage_class (a_class (ant_of s2 a)))))"
proof (intro impI conjI)
  assume q: "a_is_true_queen (ant_of s q)"
  {
    assume "QueenAnt_action n s q = Some (Inr s')"
    from QueenAnt_action_result[OF q this]
    show "\<exists>own. a_place (ant_of s q) = Some own \<and> ended n p_exit s (Some own) \<and>
               ended n p_entrance s (p_entrance (place_of s own))"
      and "\<forall>a. ant_of s' a =
               (if a \<in> set (buffed n s q) then doubled (ant_of s a) else ant_of s a)"
      by blast+
  }
  {
    assume "a_place (ant_of s q) = Some own \<and>
      ThrowerAnt_action n (case queen s of PlaceRef r \<Rightarrow> s\<lparr>queen := QueenPlace r own\<rparr>
                                         | QueenPlace c a \<Rightarrow> s) q = Some (Inr c2) \<and>
      ended n p_exit s (Some own) \<and> ended n p_entrance s (p_entrance (place_of s own))"
    then show "\<exists>s1. QueenAnt_action n s q = Some (Inr s1)"
      using QueenAnt_action_returns[OF q, of own n c2] by blast
  }
  {
    assume "queen_actions k n s q = Some (Inr s2)"
    from queen_actions_result[OF q this]
    have r: "\<forall>a. ant_of s2 a = ant_of s a \<or> ant_of s2 a = doubled (ant_of s a)" by blast
    show "\<forall>a. a_damage (ant_of s2 a) = a_damage (ant_of s a) \<or>
             (\<not> a_damage_doubled (ant_of s a) \<and> a_damage (ant_of s2 a) = 2 * a_damage (ant_of s a))"
    proof
      fix a
      from r have "ant_of s2 a = ant_of s a \<or> ant_of s2 a = doubled (ant_of s a)" by blast
      then show "a_damage (ant_of s2 a) = a_damage (ant_of s a) \<or>
             (\<not> a_damage_doubled (ant_of s a) \<and> a_damage (ant_of s2 a) = 2 * a_damage (ant_of s a))"
        using doubled_damage[of "ant_of s a"] by auto
    qed
    assume "damage_ok s"
    then show "damage_ok s2" using r by (rule damage_ok_doubled)
    then show "\<forall>a. a_damage (ant_of s2 a) \<le> 2 * damage_class (a_class (ant_of s2 a))"
      using damage_ok_bound by blast
  }
qed


lemma court_facts:
  "a_is_true_queen (ant_of court 1)" "a_class (ant_of court 1) = QueenAnt"
  "a_place (ant_of court 1) = Some 3" "p_ant (place_of court 3) = Some 1"
  "buffed 11 court 1 = [0, 2, 3]"
  "map (\<lambda>a. a_damage (ant_of court a)) [0, 1, 2, 3] = [1, 1, 0, 1]"
  "map (\<lambda>a. a_damage_doubled (ant_of court a)) [0, 1, 2, 3] = [False, False, False, False]"
  "queen (finished (QueenAnt_action 11 court 1)) = QueenPlace 0 3"
  "queen (finished (queen_actions 3 11 court 1)) = QueenPlace 0 3"
  "queen colony0 = PlaceRef 0"
  by code_simp+

lemma has_returned_eq: "has_returned r \<Longrightarrow> r = Some (Inr (finished r))"
  by (auto simp: has_returned_def finished_def split: option.splits sum.splits)

lemma court_ok: "damage_ok court"
  by (simp add: damage_ok_def court_def world_defs place_defs add_insect_def Water_add_insect_def)

lemma court_more:
  "ended 11 p_exit court (Some 3)" "ended 11 p_entrance court (p_entrance (place_of court 3))"
  "queen court = PlaceRef 0"
  "has_returned (ThrowerAnt_action 11 (court\<lparr>queen := QueenPlace 0 3\<rparr>) 1)"
  "has_returned (queen_actions 3 11 court 1)"
  "map (\<lambda>a. damage_class (a_class (ant_of (finished (queen_actions 3 11 court 1)) a))) [0, 1, 2, 3]
     = [1, 1, 0, 1]"
  by code_simp+

theorem queen_doubles_witness:
  "a_is_true_queen (ant_of court 1) \<and> a_place (ant_of court 1) = Some 3 \<and>
   ended 11 p_exit court (Some 3) \<and> ended 11 p_entrance court (p_entrance (place_of court 3)) \<and>
   has_returned (QueenAnt_action 11 court 1) \<and>
   buffed 11 court 1 = [0, 2, 3] \<and>
   map (\<lambda>a. a_damage (ant_of court a)) [0, 1, 2, 3] = [1, 1, 0, 1] \<and>
   map (\<lambda>a. a_damage (ant_of (finished (QueenAnt_action 11 court 1)) a)) [0, 1, 2, 3]
     = [2, 1, 0, 2] \<and>
   damage_ok court \<and> has_returned (queen_actions 3 11 court 1) \<and>
   damage_ok (finished (queen_actions 3 11 court 1)) \<and>
   a_damage (ant_of (finished (queen_actions 3 11 court 1)) 0) \<le> 2"
proof -
  let ?c1 = "court\<lparr>queen := QueenPlace 0 3\<rparr>"
  have th: "ThrowerAnt_action 11 (case queen court of PlaceRef r \<Rightarrow> court\<lparr>queen := QueenPlace r 3\<rparr>
                                     | QueenPlace c a \<Rightarrow> court) 1
              = Some (Inr (finished (ThrowerAnt_action 11 ?c1 1)))"
    using has_returned_eq[OF court_more(4)] by (simp add: court_more(3))
  from queen_doubles[where s = court and q = 1 and n = 11 and own = 3
                       and ?c2.0 = "finished (ThrowerAnt_action 11 ?c1 1)"]
       court_facts(1,3) th court_more(1,2)
  obtain s' where s': "QueenAnt_action 11 court 1 = Some (Inr s')" by blast
  then have r: "has_returned (QueenAnt_action 11 court 1)" "finished (QueenAnt_action 11 court 1) = s'"
    by (simp_all add: has_returned_def finished_def)
  from queen_doubles[where s = court and q = 1 and n = 11 and s' = s'] court_facts(1) s'
  have "\<forall>a. ant_of s' a =
          (if a \<in> set (buffed 11 court 1) then doubled (ant_of court a) else ant_of court a)"
    by blast
  then have "\<forall>a. ant_of s' a = (if a \<in> set [0, 2, 3] then doubled (ant_of court a) else ant_of court a)"
    unfolding court_facts(5) .
  then have 1: "map (\<lambda>a. a_damage (ant_of (finished (QueenAnt_action 11 court 1)) a)) [0, 1, 2, 3]
     = [2, 1, 0, 2]"
    using court_facts(6,7) by (simp add: r(2) doubled_def del: One_nat_def)
  let ?s2 = "finished (queen_actions 3 11 court 1)"
  from queen_doubles[where s = court and q = 1 and n = 11 and k = 3 and ?s2.0 = ?s2]
       court_facts(1) has_returned_eq[OF court_more(5)] court_ok
  have 2: "damage_ok ?s2" "\<forall>a. a_damage (ant_of ?s2 a) \<le> 2 * damage_class (a_class (ant_of ?s2 a))"
    by blast+
  from 2(2) have "a_damage (ant_of ?s2 0) \<le> 2 * damage_class (a_class (ant_of ?s2 0))" by blast
  with court_more(6) have 3: "a_damage (ant_of ?s2 0) \<le> 2" by simp
  from r(1) 1 2(1) 3 court_facts(1,3,5,6) court_more(1,2,5) court_ok show ?thesis by blast
qed

text \<open>
  C8, as stated, fails for the queen herself: she is a Defender on the path, in the slot
  of her own Place, and her damage is 1 before and after her action, while the damage
  of the ThrowerAnt of place 2 goes from 1 to 2.
\<close>

theorem queen_doubles_counterexample:
  "a_class (ant_of court 1) = QueenAnt \<and> a_is_true_queen (ant_of court 1) \<and>
   a_place (ant_of court 1) = Some 3 \<and> p_ant (place_of court 3) = Some 1 \<and>
   a_damage (ant_of court 1) = 1 \<and> \<not> a_damage_doubled (ant_of court 1) \<and>
   a_damage (ant_of court 0) = 1 \<and>
   has_returned (QueenAnt_action 11 court 1) \<and>
   a_damage (ant_of (finished (QueenAnt_action 11 court 1)) 1) = 1 \<and>
   \<not> a_damage_doubled (ant_of (finished (QueenAnt_action 11 court 1)) 1) \<and>
   a_damage (ant_of (finished (QueenAnt_action 11 court 1)) 0) = 2"
  by code_simp

subsection \<open>The steps of the game stay reachable\<close>


text \<open>Every step of the game is made of the steps that \<open>reachable\<close> is closed under.\<close>

lemma reachable_quiet:
  "reachable s \<Longrightarrow> next_ant s' = next_ant s \<Longrightarrow>
   (\<forall>a. a_class (ant_of s' a) = a_class (ant_of s a) \<and> a_ant (ant_of s' a) = a_ant (ant_of s a)) \<Longrightarrow>
   (\<forall>p. p_ant (place_of s' p) = p_ant (place_of s p)) \<Longrightarrow> reachable s'"
  using reachable.other[of s s'] by (simp add: same_shape_def same_slots_def)

lemma reachable_drawn: "reachable s \<Longrightarrow> reachable (drawn s)"
  by (erule reachable_quiet) (simp_all add: drawn_def split: list.splits)

lemma reachable_bee_reduce:
  "reachable s \<Longrightarrow> Insect_reduce_armor s (BeeRef b) d = Inr s' \<Longrightarrow> reachable s'"
  using reachable.reduced[of s "BeeRef b" d s'] by (simp add: reduce_armor_def)

lemma reachable_reduce_each:
  "reachable s \<Longrightarrow> reduce_each s bs d = Inr s' \<Longrightarrow> reachable s'"
  by (induction bs arbitrary: s) (auto split: sum.splits intro: reachable_bee_reduce)

lemma reachable_move_to:
  assumes "reachable s" "Bee_move_to s b target = Inr s'"
  shows "reachable s'"
proof -
  from assms(2) obtain p s1 q where
    1: "Place_remove_insect s p (BeeRef b) = Inr s1" "add_insect s1 q (BeeRef b) = Inr s'"
    by (auto simp: Bee_move_to_def split: option.splits sum.splits)
  from assms(1) 1(1) have "reachable s1" by (rule reachable.removed)
  moreover have "allocated s1 (BeeRef b)" by (simp add: allocated_def)
  ultimately show ?thesis using 1(2) by (rule reachable.added)
qed

lemma reachable_Bee__action:
  "reachable s \<Longrightarrow> Bee__action s b = Inr s' \<Longrightarrow> reachable s'"
  by (auto simp: Bee__action_def Bee_sting_def split: sum.splits option.splits if_splits
           intro: reachable.reduced reachable_move_to)

lemma reachable_bump: "reachable s \<Longrightarrow> reachable (bump_count b j s)"
  by (erule reachable_quiet) (simp_all add: bump_count_def)

lemma reachable_action_fn:
  "reachable s \<Longrightarrow> action_fn b n s b = Inr s' \<Longrightarrow> reachable s'"
proof (induction n arbitrary: s s')
  case 0
  then show ?case by (auto intro: reachable_Bee__action)
next
  case (Suc n)
  from Suc.prems(2) have
    "action_fn b n s b = Inr s' \<or> action_fn b n (bump_count b n s) b = Inr s' \<or> s' = bump_count b n s"
    by (cases "c_effect (b_effects (bee_of s b) ! n)")
       (auto simp: duration_effect_def Let_def make_slow_def make_stun_def split: if_splits)
  then show ?case
    using Suc.IH[of s s'] Suc.IH[of "bump_count b n s" s'] reachable_bump[OF Suc.prems(1), of b n]
      Suc.prems(1)
    by blast
qed

lemma reachable_insect_action:
  "reachable s \<Longrightarrow> insect_action s b = Inr s' \<Longrightarrow> reachable s'"
  by (auto simp: insect_action_def Bee_action_def split: if_splits intro: reachable_action_fn)

lemma reachable_bees_take_actions:
  "reachable s \<Longrightarrow> bees_take_actions s bs = Inr s' \<Longrightarrow> reachable s'"
  by (induction bs arbitrary: s)
     (auto split: if_splits sum.splits intro: reachable_insect_action)


lemma nearest_bee_loop_state:
  "nearest_bee_loop n s a hv pl r = Some (Inr (tgt, s1)) \<Longrightarrow> s1 = s \<or> s1 = drawn s"
proof (induction n arbitrary: pl r)
  case 0
  then show ?case by simp
next
  case (Suc n)
  show ?case
  proof (cases tgt)
    case (Some t)
    with Suc.prems nearest_bee_loop_sound[of "Suc n" s a hv pl r t s1] show ?thesis by simp
  next
    case None
    show ?thesis
    proof (cases "pl = Some hv")
      case True
      with Suc.prems show ?thesis by simp
    next
      case False
      with Suc.prems obtain p where p: "pl = Some p" by (cases pl) auto
      have "random_or_none (p_bees (place_of s p)) s = (None, s) \<or>
            (\<exists>t. random_or_none (p_bees (place_of s p)) s = (Some t, drawn s))"
        using random_or_none_Cons[of "p_bees (place_of s p)" s]
        by (cases "p_bees (place_of s p) = []") auto
      with Suc.prems False p None
      have "nearest_bee_loop n s a hv (p_entrance (place_of s p)) (r + 1) = Some (Inr (tgt, s1))"
        by (auto split: if_splits)
      then show ?thesis by (rule Suc.IH)
    qed
  qed
qed

lemma reachable_apply_effect:
  "reachable s \<Longrightarrow> apply_effect e b d s = Inr s' \<Longrightarrow> reachable s'"
  by (auto simp: apply_effect_def split: if_splits elim!: reachable_quiet)

lemma reachable_throw_at:
  "reachable s \<Longrightarrow> throw_at s a tgt = Inr s' \<Longrightarrow> reachable s'"
  by (auto simp: throw_at_def ThrowerAnt_throw_at_def SlowThrower_throw_at_def
                 StunThrower_throw_at_def
           split: if_splits option.splits intro: reachable.reduced reachable_apply_effect)

lemma reachable_ThrowerAnt_action:
  assumes "reachable s" "ThrowerAnt_action n s a = Some (Inr s')"
  shows "reachable s'"
proof -
  from assms(2) obtain tgt s1 where
    1: "nearest_bee_loop n s a (hive s) (a_place (ant_of s a)) 0 = Some (Inr (tgt, s1))"
       "throw_at s1 a tgt = Inr s'"
    by (auto simp: ThrowerAnt_action_def nearest_bee_def split: option.splits sum.splits)
  from nearest_bee_loop_state[OF 1(1)] assms(1) have "reachable s1"
    by (auto intro: reachable_drawn)
  then show ?thesis using 1(2) by (rule reachable_throw_at)
qed

lemma random_or_none_state: "random_or_none l s = (t, s1) \<Longrightarrow> s1 = s \<or> s1 = drawn s"
  using random_or_none_Cons[of l s] by (cases "l = []") auto

lemma reachable_HungryAnt_action:
  assumes "reachable s" "HungryAnt_action s a = Inr s'"
  shows "reachable s'"
proof (cases "a_digesting (ant_of s a) > 0")
  case True
  with assms(2) have "s' = upd_ant a (\<lambda>x. x\<lparr>a_digesting := a_digesting x - 1\<rparr>) s"
    by (simp add: HungryAnt_action_def)
  with assms(1) show ?thesis by (auto elim!: reachable_quiet)
next
  case False
  with assms(2) obtain p t s1 where
    1: "random_or_none (p_bees (place_of s p)) s = (t, s1)"
       "t = None \<and> s' = s1 \<or> (\<exists>b. t = Some b \<and> HungryAnt_eat_bee s1 a b = Inr s')"
    by (auto simp: HungryAnt_action_def split: option.splits prod.splits)
  from random_or_none_state[OF 1(1)] assms(1) have r1: "reachable s1"
    by (auto intro: reachable_drawn)
  from 1(2) show ?thesis
  proof
    assume "t = None \<and> s' = s1"
    with r1 show ?thesis by simp
  next
    assume "\<exists>b. t = Some b \<and> HungryAnt_eat_bee s1 a b = Inr s'"
    then obtain b where b: "HungryAnt_eat_bee s1 a b = Inr s'" by blast
    then obtain s2 where
      2: "reduce_armor s1 (BeeRef b) (b_armor (bee_of s1 b)) = Inr s2"
         "s' = upd_ant a (\<lambda>x. x\<lparr>a_digesting := 3\<rparr>) s2"
      by (cases "reduce_armor s1 (BeeRef b) (b_armor (bee_of s1 b))")
         (auto simp: HungryAnt_eat_bee_def)
    from r1 2(1) have "reachable s2" by (rule reachable.reduced)
    with 2(2) show ?thesis by (auto elim!: reachable_quiet)
  qed
qed

lemma reachable_NinjaAnt_action:
  "reachable s \<Longrightarrow> NinjaAnt_action s a = Inr s' \<Longrightarrow> reachable s'"
  by (auto simp: NinjaAnt_action_def split: option.splits intro: reachable_reduce_each)

lemma reachable_double_damage: "reachable s \<Longrightarrow> reachable (double_damage s a)"
  by (erule reachable_quiet) (simp_all add: double_damage_def)

lemma reachable_double_place_damage: "reachable s \<Longrightarrow> reachable (double_place_damage s p)"
  by (auto simp: double_place_damage_def Let_def split: option.splits
           intro: reachable_double_damage)

lemma reachable_double_loop:
  "reachable s \<Longrightarrow> double_loop n field s pl = Some s' \<Longrightarrow> reachable s'"
proof (induction n arbitrary: s pl)
  case 0
  then show ?case by simp
next
  case (Suc n)
  then show ?case
    by (cases pl) (auto simp: Let_def intro: reachable_double_place_damage)
qed

lemma reachable_QueenAnt_action:
  assumes "reachable s" "QueenAnt_action n s q = Some (Inr s')"
  shows "reachable s'"
proof (cases "a_is_true_queen (ant_of s q)")
  case False
  with assms show ?thesis
    by (auto simp: QueenAnt_action_def intro: reachable.reduced)
next
  case True
  with assms(2) obtain own where own: "a_place (ant_of s q) = Some own"
    by (cases "a_place (ant_of s q)") (auto simp: QueenAnt_action_def)
  define c1 where "c1 = (case queen s of PlaceRef r \<Rightarrow> s\<lparr>queen := QueenPlace r own\<rparr>
                                       | QueenPlace c a \<Rightarrow> s)"
  have "reachable c1"
    using assms(1) by (rule reachable_quiet) (simp_all add: c1_def split: queen_ref.splits)
  moreover from assms(2) True own obtain c2 c3 p where
    "ThrowerAnt_action n c1 q = Some (Inr c2)"
    "double_loop n p_exit c2 (a_place (ant_of c2 q)) = Some c3"
    "double_loop n p_entrance c3 (p_entrance (place_of c3 p)) = Some s'"
    by (auto simp: QueenAnt_action_def Let_def c1_def split: option.splits sum.splits)
  ultimately show ?thesis
    by (blast intro: reachable_ThrowerAnt_action reachable_double_loop)
qed

lemma reachable_ant_action:
  "reachable s \<Longrightarrow> ant_action n s a = Some (Inr s') \<Longrightarrow> reachable s'"
proof (induction n arbitrary: a)
  case 0
  then show ?case by simp
next
  case (Suc n)
  have h: "reachable (HarvesterAnt_action s a)"
    using Suc.prems(1) by (rule reachable_quiet) (simp_all add: HarvesterAnt_action_def)
  from Suc.prems(2) show ?case
    using Suc.prems(1) Suc.IH h
    by (cases "a_class (ant_of s a)")
       (auto split: option.splits
             intro: reachable_ThrowerAnt_action reachable_NinjaAnt_action
                    reachable_HungryAnt_action reachable_QueenAnt_action)
qed

lemma reachable_ants_take_actions:
  "reachable s \<Longrightarrow> ants_take_actions n s as = Some (Inr s') \<Longrightarrow> reachable s'"
  by (induction as arbitrary: s)
     (auto split: if_splits option.splits sum.splits intro: reachable_ant_action)

lemma reachable_move_wave:
  "reachable s \<Longrightarrow> move_wave s exits wave = Inr s' \<Longrightarrow> reachable s'"
proof (induction wave arbitrary: s)
  case Nil
  then show ?case by simp
next
  case (Cons b wave)
  from Cons.prems(2) obtain x s1 s2 where
    1: "random_choice exits s = Inr (x, s1)" "Bee_move_to s1 b (Some x) = Inr s2"
       "move_wave s2 exits wave = Inr s'"
    by (auto split: sum.splits)
  from 1(1) have "s1 = s \<or> s1 = drawn s"
    by (auto simp: random_choice_def drawn_def split: if_splits list.splits)
  with Cons.prems(1) have "reachable s1" by (auto intro: reachable_drawn)
  with 1(2) have "reachable s2" by (auto intro: reachable_move_to)
  then show ?case using 1(3) by (rule Cons.IH)
qed

lemma reachable_deploy_ant:
  assumes "reachable s" "deploy_ant s pn name = Inr s'"
  shows "reachable s'"
proof -
  from assms(2) obtain cls where cls: "map_of (ant_types s) name = Some cls"
    by (auto simp: deploy_ant_def split: option.splits)
  show ?thesis
  proof (cases "food s < food_cost cls")
    case True
    with assms(2) cls have "s' = print (NotEnoughFood name) s" by (simp add: deploy_ant_def)
    with assms(1) show ?thesis by (auto elim!: reachable_quiet)
  next
    case False
    with assms(2) cls obtain p s2 where
      1: "add_insect (snd (construct cls s)) p (AntRef (next_ant s)) = Inr s2"
         "s' = s2\<lparr>food := food s2 - food_cost cls\<rparr>"
      by (auto simp: deploy_ant_def construct_def split: option.splits sum.splits)
    have "reachable (snd (construct cls s))" using assms(1) by (rule reachable.constructed)
    moreover have "allocated (snd (construct cls s)) (AntRef (next_ant s))"
      by (simp add: allocated_def construct_def)
    ultimately have "reachable s2" using 1(1) by (rule reachable.added)
    with 1(2) show ?thesis by (auto elim!: reachable_quiet)
  qed
qed

lemma reachable_remove_ant:
  "reachable s \<Longrightarrow> remove_ant s pn = Inr s' \<Longrightarrow> reachable s'"
  by (auto simp: remove_ant_def split: option.splits intro: reachable.removed)

text \<open>
  A turn of the colony, and \<open>simulate\<close>, lead from reachable states to reachable states
  when the strategy does, as one that only calls \<open>deploy_ant\<close> and \<open>remove_ant\<close>.
\<close>

lemma reachable_turn:
  assumes "reachable s" "\<And>x y. reachable x \<Longrightarrow> strategy x = Inr y \<Longrightarrow> reachable y"
    "turn n strategy s = Some (Inr s')"
  shows "reachable s'"
proof -
  from assms(3) obtain s1 s2 s3 s4 where
    1: "Hive_strategy s = Inr s1" "strategy s1 = Inr s2"
       "ants_take_actions n s2 (colony_ants s2) = Some (Inr s3)"
       "bees_take_actions s3 (colony_bees s3) = Inr s4" "s' = s4\<lparr>time := time s4 + 1\<rparr>"
    by (auto simp: turn_def split: sum.splits option.splits)
  from assms(1) 1(1) have "reachable s1"
    by (auto simp: Hive_strategy_def Let_def intro: reachable_move_wave)
  with assms(2) 1(2) have "reachable s2" by blast
  then have "reachable s3" using 1(3) by (rule reachable_ants_take_actions)
  then have "reachable s4" using 1(4) by (rule reachable_bees_take_actions)
  with 1(5) show ?thesis by (auto elim!: reachable_quiet)
qed

lemma reachable_simulate:
  assumes "\<And>x y. reachable x \<Longrightarrow> strategy x = Inr y \<Longrightarrow> reachable y"
  shows "reachable s \<Longrightarrow> simulate n strategy s = Some (Inr s') \<Longrightarrow> reachable s'"
proof (induction n arbitrary: s)
  case 0
  then show ?case by simp
next
  case (Suc n)
  show ?case
  proof (cases "length (queen_bees s (queen s)) = 0 \<and> length (colony_bees s) > 0")
    case True
    with Suc.prems(2) obtain s1 where
      1: "turn n strategy s = Some (Inr s1)" "simulate n strategy s1 = Some (Inr s')"
      by (auto split: option.splits sum.splits)
    have "reachable s1"
    proof (rule reachable_turn)
      show "reachable s" by fact
      show "turn n strategy s = Some (Inr s1)" by fact
    next
      fix x y
      assume "reachable x" "strategy x = Inr y"
      then show "reachable y" by (rule assms)
    qed
    then show ?thesis using 1(2) by (rule Suc.IH)
  next
    case False
    with Suc.prems(2) have "s' = print Perished s \<or> s' = print YouWin s"
      by (auto split: if_splits)
    with Suc.prems(1) show ?thesis by (auto elim!: reachable_quiet)
  qed
qed

lemma reachable_harvester_strategy:
  "reachable x \<Longrightarrow> harvester_strategy x = Inr y \<Longrightarrow> reachable y"
  by (auto simp: harvester_strategy_def split: if_splits intro: reachable_deploy_ant)

end
